theory Spec2Isabelle
  imports Complex_Main "HOL-Library.Word" "HOL-Library.Multiset" "HOL-Library.Log_Nat"
begin

unbundle bit_operations_syntax

section \<open>Data model\<close>

text \<open>
  The structs of \<^verbatim>\<open>hif.h\<close>. A \<^verbatim>\<open>Hyperedge\<close> holds a vertex array, its length and
  a weight; the array together with \<^verbatim>\<open>nverts\<close> is a list here, so \<^verbatim>\<open>nverts\<close> is the
  length of that list. A \<^verbatim>\<open>Node\<close> owns a hyperedge and an array of child pointers; no
  node is shared, so a node is a tree. A \<^verbatim>\<open>Forest\<close> is the array of its roots. The
  capacities (\<^verbatim>\<open>children_cap\<close>, \<^verbatim>\<open>roots_cap\<close>) only drive \<^verbatim>\<open>realloc\<close> and are not
  modelled; allocation failure ends the process in the source and is not modelled either.

  Vertex identifiers are C \<^verbatim>\<open>int\<close>s; the engine only compares them, so they are
  integers here (the serializer, which writes them as four bytes, asks for the 32-bit
  range explicitly). The weight is a C \<^verbatim>\<open>double\<close>. The type of the weight is a parameter
  of the model, and three views of a \<^verbatim>\<open>double\<close> are used. Where a property turns on the
  rounding of \<^verbatim>\<open>w + 1e-9\<close> or on NaN, the weight is an IEEE double (the type \<open>double\<close>
  further down, with the functions that carry the suffix \<open>_d\<close>). Where weights are only
  compared and rounding cannot change the outcome, the weight is the exact number
  (\<^typ>\<open>real\<close>). The serializer copies the eight bytes of the weight without reading
  them, and there the weight is its 64-bit pattern.
\<close>

record 'w hyperedge =
  verts :: "int list"
  weight :: 'w

datatype 'w node = Node (he: "'w hyperedge") (children: "'w node list")

type_synonym 'w forest = "'w node list"

definition nverts :: "'w hyperedge \<Rightarrow> nat" where
  "nverts h = length (verts h)"

definition nchildren :: "'w node \<Rightarrow> nat" where
  "nchildren nd = length (children nd)"

text \<open>The canonical form of a vertex array: strictly increasing.\<close>

definition canonical :: "int list \<Rightarrow> bool" where
  "canonical vs = sorted_wrt (<) vs"

section \<open>Dominance comparator\<close>

text \<open>
  \<^verbatim>\<open>is_subset(A, nA, B, nB)\<close>: the two indices \<^verbatim>\<open>i\<close> and \<^verbatim>\<open>j\<close> walk the arrays; the
  arguments here are the parts of the arrays from \<^verbatim>\<open>i\<close> and from \<^verbatim>\<open>j\<close> on. When the
  loop ends the result is \<^verbatim>\<open>i == nA\<close>.
\<close>

fun is_subset :: "int list \<Rightarrow> int list \<Rightarrow> bool" where
  "is_subset [] B = True"
| "is_subset (a # A) [] = False"
| "is_subset (a # A) (b # B) =
     (if a = b then is_subset A B
      else if a > b then is_subset (a # A) B
      else False)"

definition EPSILON :: real where
  "EPSILON = 1 / 10 ^ 9"

text \<open>
  \<^verbatim>\<open>weighted_cmp\<close>: \<open>-1\<close> when \<open>A\<close> should be the parent, \<open>1\<close> when \<open>B\<close> should be, \<open>0\<close>
  for a tie. Here the weights are exact numbers and so is the sum with \<open>EPSILON\<close>;
  \<open>weighted_cmp_d\<close> further down is the same function with the sum rounded as the C
  code rounds it.
\<close>

definition weighted_cmp :: "real hyperedge \<Rightarrow> real hyperedge \<Rightarrow> int" where
  "weighted_cmp A B =
     (if weight A > weight B + EPSILON then -1
      else if weight B > weight A + EPSILON then 1
      else
        let A_in_B = is_subset (verts A) (verts B);
            B_in_A = is_subset (verts B) (verts A)
        in if B_in_A \<and> \<not> A_in_B then -1
           else if A_in_B \<and> \<not> B_in_A then 1
           else if nverts A > nverts B then -1
           else if nverts B > nverts A then 1
           else 0)"

section \<open>Nodes and insertion\<close>

definition node_create :: "int list \<Rightarrow> 'w \<Rightarrow> 'w node" where
  "node_create vs w = Node \<lparr>verts = vs, weight = w\<rparr> []"

text \<open>\<^verbatim>\<open>node_add_child\<close> appends to the parent's child array; the parent is returned updated.\<close>

definition node_add_child :: "'w node \<Rightarrow> 'w node \<Rightarrow> 'w node" where
  "node_add_child parent child = Node (he parent) (children parent @ [child])"

text \<open>
  \<^verbatim>\<open>insert_into_node(root, newn, depth)\<close> mutates both \<^verbatim>\<open>root\<close> and \<^verbatim>\<open>newn\<close> and
  returns \<open>1\<close>, \<open>-1\<close> or \<open>0\<close>; the model returns the result code with the two nodes as
  they are afterwards. The \<^verbatim>\<open>while\<close> loop over \<^verbatim>\<open>root->children\<close> is
  \<open>insert_into_children\<close>: its first list holds the children before index \<^verbatim>\<open>i\<close>, the
  second those from \<^verbatim>\<open>i\<close> on. Removing \<^verbatim>\<open>children[i]\<close> and leaving \<^verbatim>\<open>i\<close> in place is
  dropping the head of the second list; \<^verbatim>\<open>i++\<close> moves the head to the end of the first.
  The loop answers \<open>True\<close> when it left through \<^verbatim>\<open>return -1\<close> (the new node went into a
  child's subtree) and \<open>False\<close> when it ran to the end.
\<close>

fun insert_into_node :: "real node \<Rightarrow> real node \<Rightarrow> nat \<Rightarrow> int \<times> real node \<times> real node"
  and insert_into_children ::
    "real node list \<Rightarrow> real node list \<Rightarrow> real node \<Rightarrow> nat \<Rightarrow> bool \<times> real node list \<times> real node"
where
  "insert_into_node (Node h cs) newn depth =
     (let cmp = weighted_cmp h (he newn) in
      if cmp = 1 then (1, Node h cs, newn)
      else if cmp = -1 then
        (if \<not> is_subset (verts (he newn)) (verts h) then (0, Node h cs, newn)
         else case insert_into_children [] cs newn (depth + 1) of
                (True, cs', newn') \<Rightarrow> (-1, Node h cs', newn')
              | (False, cs', newn') \<Rightarrow> (-1, node_add_child (Node h cs') newn', newn'))
      else (0, Node h cs, newn))"
| "insert_into_children pre [] newn depth = (False, pre, newn)"
| "insert_into_children pre (c # rest) newn depth =
     (case insert_into_node c newn depth of
        (res, c', newn') \<Rightarrow>
          if res = 1 then insert_into_children pre rest (node_add_child newn' c') depth
          else if res = -1 then (True, pre @ c' # rest, newn')
          else insert_into_children (pre @ [c']) rest newn' depth)"

text \<open>
  \<^verbatim>\<open>forest_insert_node\<close>: the loop over the roots, in the same two-list form; running off
  the end is \<^verbatim>\<open>forest_add_root\<close>.
\<close>

fun forest_insert_roots :: "real node list \<Rightarrow> real node list \<Rightarrow> real node \<Rightarrow> real forest" where
  "forest_insert_roots pre [] newn = pre @ [newn]"
| "forest_insert_roots pre (r # rest) newn =
     (let cmp = weighted_cmp (he r) (he newn) in
      if cmp = 1 then forest_insert_roots pre rest (node_add_child newn r)
      else if cmp = -1 then
        (case insert_into_node r newn 1 of
           (res, r', newn') \<Rightarrow>
             if res = 1 then forest_insert_roots pre rest (node_add_child newn' r')
             else if res = -1 then pre @ r' # rest
             else forest_insert_roots (pre @ [r']) rest newn')
      else forest_insert_roots (pre @ [r]) rest newn)"

definition forest_insert_node :: "real forest \<Rightarrow> real node \<Rightarrow> real forest" where
  "forest_insert_node f newn = forest_insert_roots [] f newn"

text \<open>
  \<^verbatim>\<open>normalize_vertices\<close>: an empty input gives length 0; otherwise the copy is sorted
  (\<^verbatim>\<open>qsort\<close> with \<^verbatim>\<open>cmp_int\<close>, whose subtraction is taken not to overflow here;
  \<open>normalize_vertices_q\<close> further down does without this assumption) and the loop
  keeps \<^verbatim>\<open>a[i]\<close> when it differs from the last kept element \<^verbatim>\<open>a[w-1]\<close>. In
  \<open>dedup_loop\<close> the first list is \<^verbatim>\<open>a[0..w)\<close> and the second \<^verbatim>\<open>a[i..n_in)\<close>.
\<close>

fun dedup_loop :: "int list \<Rightarrow> int list \<Rightarrow> int list" where
  "dedup_loop kept [] = kept"
| "dedup_loop kept (x # xs) =
     (if x \<noteq> last kept then dedup_loop (kept @ [x]) xs else dedup_loop kept xs)"

definition normalize_vertices :: "int list \<Rightarrow> int list" where
  "normalize_vertices vs =
     (if length vs = 0 then []
      else let a = sort vs in dedup_loop [hd a] (tl a))"

definition forest_create :: "'w forest" where
  "forest_create = []"

definition insert_hyperedge :: "real forest \<Rightarrow> int list \<Rightarrow> real \<Rightarrow> real forest" where
  "insert_hyperedge f vs w =
     (let norm = normalize_vertices vs in
      if length norm = 0 then f
      else forest_insert_node f (node_create norm w))"

text \<open>\<^verbatim>\<open>forest_insert_batch\<close>: the edges are inserted one after the other.\<close>

definition forest_insert_batch :: "real forest \<Rightarrow> (int list \<times> real) list \<Rightarrow> real forest" where
  "forest_insert_batch f edges = fold (\<lambda>(vs, w) f. insert_hyperedge f vs w) edges f"

section \<open>Counting, depth and verification\<close>

fun count_nodes_recursive :: "'w node \<Rightarrow> nat" where
  "count_nodes_recursive (Node h cs) = 1 + sum_list (map count_nodes_recursive cs)"

definition count_total_nodes :: "'w forest \<Rightarrow> nat" where
  "count_total_nodes f = sum_list (map count_nodes_recursive f)"

fun node_depth :: "'w node \<Rightarrow> nat" where
  "node_depth (Node h cs) = 1 + fold (\<lambda>c m. if node_depth c > m then node_depth c else m) cs 0"

definition forest_max_depth :: "'w forest \<Rightarrow> nat" where
  "forest_max_depth f = fold (\<lambda>r m. if node_depth r > m then node_depth r else m) f 0"

section \<open>Queries\<close>

text \<open>
  \<^verbatim>\<open>collect_all_nodes\<close> fills an array with the nodes in pre-order: a node, then the
  subtrees of its children from left to right.
\<close>

fun collect_all_nodes_recursive :: "'w node \<Rightarrow> 'w node list" where
  "collect_all_nodes_recursive (Node h cs) =
     Node h cs # concat (map collect_all_nodes_recursive cs)"

definition collect_all_nodes :: "'w forest \<Rightarrow> 'w node list" where
  "collect_all_nodes f = concat (map collect_all_nodes_recursive f)"

section \<open>Maintenance\<close>

text \<open>
  \<^verbatim>\<open>cmp_by_weight_desc\<close> on two nodes. \<^verbatim>\<open>qsort\<close> leaves the order of elements that
  compare equal open; the model is an insertion sort that keeps them in their order. The
  evaluations further down sort weights that differ, where the order is determined.
\<close>

definition cmp_by_weight_desc :: "real node \<Rightarrow> real node \<Rightarrow> int" where
  "cmp_by_weight_desc na nb =
     (if weight (he na) > weight (he nb) then -1
      else if weight (he na) < weight (he nb) then 1
      else 0)"

fun qsort_insert :: "('a \<Rightarrow> 'a \<Rightarrow> int) \<Rightarrow> 'a \<Rightarrow> 'a list \<Rightarrow> 'a list" where
  "qsort_insert cmp x [] = [x]"
| "qsort_insert cmp x (y # ys) =
     (if cmp x y \<le> 0 then x # y # ys else y # qsort_insert cmp x ys)"

definition qsort :: "('a \<Rightarrow> 'a \<Rightarrow> int) \<Rightarrow> 'a list \<Rightarrow> 'a list" where
  "qsort cmp xs = foldr (qsort_insert cmp) xs []"

text \<open>
  \<^verbatim>\<open>forest_rebalance\<close>: all nodes are collected and sorted, the root array is emptied,
  and each node is stripped of its children and inserted again.
\<close>

definition forest_rebalance :: "real forest \<Rightarrow> real forest" where
  "forest_rebalance f =
     (let all_nodes = collect_all_nodes f in
      if length all_nodes = 0 then f
      else fold (\<lambda>nd f'. forest_insert_node f' (Node (he nd) []))
             (qsort cmp_by_weight_desc all_nodes) [])"

definition vertices_equal :: "int list \<Rightarrow> int list \<Rightarrow> bool" where
  "vertices_equal a b =
     (if length a \<noteq> length b then False
      else list_all (\<lambda>i. a ! i = b ! i) [0..<length a])"

text \<open>
  \<^verbatim>\<open>forest_merge_duplicates\<close>. \<^verbatim>\<open>all_nodes\<close> holds pointers to the nodes in pre-order;
  the model keeps the hyperedges at those positions in a list, and the flags
  \<^verbatim>\<open>processed\<close> in a second list. \<open>merge_inner\<close> is the loop over \<^verbatim>\<open>j\<close>, \<open>merge_outer\<close>
  the loop over \<^verbatim>\<open>i\<close>. The only write to a node is
  \<^verbatim>\<open>all_nodes[i]->he.weight = new_weight\<close>; no node is removed.
\<close>

function merge_inner ::
  "real hyperedge list \<Rightarrow> bool \<Rightarrow> nat \<Rightarrow> nat \<Rightarrow> real \<times> nat \<times> bool list \<times> nat
     \<Rightarrow> real \<times> nat \<times> bool list \<times> nat" where
  "merge_inner all_nodes keep_max i j (new_weight, dup_count, processed, merged_count) =
     (if j < length all_nodes then
        (if processed ! j then
           merge_inner all_nodes keep_max i (j + 1) (new_weight, dup_count, processed, merged_count)
         else if vertices_equal (verts (all_nodes ! i)) (verts (all_nodes ! j)) then
           merge_inner all_nodes keep_max i (j + 1)
             ((if keep_max then
                 (if weight (all_nodes ! j) > new_weight then weight (all_nodes ! j) else new_weight)
               else new_weight + weight (all_nodes ! j)),
              dup_count + 1, processed[j := True], merged_count + 1)
         else
           merge_inner all_nodes keep_max i (j + 1) (new_weight, dup_count, processed, merged_count))
      else (new_weight, dup_count, processed, merged_count))"
  by pat_completeness auto
termination
  by (relation "measure (\<lambda>(all_nodes, keep_max, i, j, st). length all_nodes - j)") auto

function merge_outer ::
  "real hyperedge list \<Rightarrow> bool \<Rightarrow> nat \<Rightarrow> bool list \<Rightarrow> nat \<Rightarrow> real hyperedge list \<times> nat" where
  "merge_outer all_nodes keep_max i processed merged_count =
     (if i < length all_nodes then
        (if processed ! i then merge_outer all_nodes keep_max (i + 1) processed merged_count
         else
           (case merge_inner all_nodes keep_max i (i + 1)
                   (weight (all_nodes ! i), 1, processed[i := True], merged_count) of
              (new_weight, dup_count, processed', merged_count') \<Rightarrow>
                let new_weight' =
                      (if \<not> keep_max \<and> dup_count > 1 then new_weight / real dup_count
                       else new_weight)
                in merge_outer (all_nodes[i := (all_nodes ! i)\<lparr>weight := new_weight'\<rparr>])
                     keep_max (i + 1) processed' merged_count'))
      else (all_nodes, merged_count))"
  by pat_completeness auto
termination
  by (relation "measure (\<lambda>(all_nodes, keep_max, i, processed, m). length all_nodes - i)") auto

text \<open>
  Writing through the pointers of \<^verbatim>\<open>all_nodes\<close> changes the nodes in the forest:
  \<open>store_nodes\<close> puts a list of hyperedges back on the nodes in pre-order.
\<close>

fun store_node :: "'w node \<Rightarrow> 'w hyperedge list \<Rightarrow> 'w node \<times> 'w hyperedge list"
  and store_nodes :: "'w node list \<Rightarrow> 'w hyperedge list \<Rightarrow> 'w node list \<times> 'w hyperedge list"
where
  "store_node (Node h cs) hs =
     (case hs of
        [] \<Rightarrow> (Node h cs, [])
      | x # xs \<Rightarrow> (case store_nodes cs xs of (cs', xs') \<Rightarrow> (Node x cs', xs')))"
| "store_nodes [] hs = ([], hs)"
| "store_nodes (c # cs) hs =
     (case store_node c hs of
        (c', hs') \<Rightarrow> (case store_nodes cs hs' of (cs', hs'') \<Rightarrow> (c' # cs', hs'')))"

definition forest_merge_duplicates :: "real forest \<Rightarrow> bool \<Rightarrow> real forest \<times> nat" where
  "forest_merge_duplicates f keep_max =
     (let all_nodes = map he (collect_all_nodes f); total = length all_nodes in
      if total \<le> 1 then (f, 0)
      else
        (case merge_outer all_nodes keep_max 0 (replicate total False) 0 of
           (all_nodes', merged_count) \<Rightarrow>
             let f' = fst (store_nodes f all_nodes') in
             if merged_count > 0 then (forest_rebalance f', merged_count)
             else (f', merged_count)))"

text \<open>
  Pruning. \<open>prune_children\<close> is the \<^verbatim>\<open>while\<close> loop of \<^verbatim>\<open>prune_node_children\<close> over
  the children from index \<^verbatim>\<open>i\<close> on; it returns the children that stay. A pruned child is
  freed with its subtree and counted once. The roots are handled in the same way by
  \<open>prune_roots\<close>. The counter \<^verbatim>\<open>removed_count\<close> is passed along.
\<close>

definition should_prune :: "real node \<Rightarrow> real \<Rightarrow> bool" where
  "should_prune nd threshold = (weight (he nd) < threshold)"

fun prune_node_children :: "real node \<Rightarrow> real \<Rightarrow> nat \<Rightarrow> real node \<times> nat"
  and prune_children :: "real node list \<Rightarrow> real \<Rightarrow> nat \<Rightarrow> real node list \<times> nat"
where
  "prune_node_children (Node h cs) threshold removed_count =
     (case prune_children cs threshold removed_count of
        (cs', removed_count') \<Rightarrow> (Node h cs', removed_count'))"
| "prune_children [] threshold removed_count = ([], removed_count)"
| "prune_children (c # rest) threshold removed_count =
     (if should_prune c threshold then prune_children rest threshold (removed_count + 1)
      else
        (case prune_node_children c threshold removed_count of
           (c', removed_count') \<Rightarrow>
             (case prune_children rest threshold removed_count' of
                (rest', removed_count'') \<Rightarrow> (c' # rest', removed_count''))))"

fun prune_roots :: "real node list \<Rightarrow> real \<Rightarrow> nat \<Rightarrow> real node list \<times> nat" where
  "prune_roots [] threshold removed_count = ([], removed_count)"
| "prune_roots (r # rest) threshold removed_count =
     (if should_prune r threshold then prune_roots rest threshold (removed_count + 1)
      else
        (case prune_node_children r threshold removed_count of
           (r', removed_count') \<Rightarrow>
             (case prune_roots rest threshold removed_count' of
                (rest', removed_count'') \<Rightarrow> (r' # rest', removed_count''))))"

definition forest_prune_by_weight :: "real forest \<Rightarrow> real \<Rightarrow> real forest \<times> nat" where
  "forest_prune_by_weight f threshold = prune_roots f threshold 0"

text \<open>
  The maximal pruned subtrees, as the specification describes them: the nodes below the
  threshold that are roots or whose ancestors are all at or above the threshold.
\<close>

fun maximal_pruned :: "real node \<Rightarrow> real \<Rightarrow> real node list" where
  "maximal_pruned (Node h cs) threshold =
     (if weight h < threshold then [Node h cs]
      else concat (map (\<lambda>c. maximal_pruned c threshold) cs))"

definition forest_maximal_pruned :: "real forest \<Rightarrow> real \<Rightarrow> real node list" where
  "forest_maximal_pruned f threshold = concat (map (\<lambda>r. maximal_pruned r threshold) f)"

text \<open>
  \<^verbatim>\<open>forest_build_bulk\<close> sorts the array of \<^verbatim>\<open>Hyperedge\<close> structs with
  \<^verbatim>\<open>cmp_by_weight_desc\<close> and inserts the elements in the resulting order. The comparator
  is the one written for arrays of node pointers: it takes the pointer to an array
  element, reads it as a \<^verbatim>\<open>Node**\<close> (\<^verbatim>\<open>Node *na = *(Node**)a\<close>) and compares
  \<^verbatim>\<open>na->he.weight\<close>. The first field of a \<^verbatim>\<open>Hyperedge\<close> is the pointer \<^verbatim>\<open>verts\<close>, so
  \<^verbatim>\<open>na\<close> is the vertex array of the element read as a \<^verbatim>\<open>Node\<close>. What that node is
  depends on the bytes of the array and on the layout of the structs, which the model
  does not hold: it is the parameter \<open>reinterpret\<close>. The weight of the element is never
  read by the comparator.
\<close>

definition forest_build_bulk ::
  "(int list \<Rightarrow> real node) \<Rightarrow> (int list \<times> real) list \<Rightarrow> real forest" where
  "forest_build_bulk reinterpret edges =
     (let sorted_edges =
            qsort (\<lambda>a b. cmp_by_weight_desc (reinterpret (fst a)) (reinterpret (fst b))) edges
      in fold (\<lambda>(vs, w) f. insert_hyperedge f vs w) sorted_edges forest_create)"

section \<open>Serializer\<close>

text \<open>
  The file is a list of bytes. \<^verbatim>\<open>fwrite\<close> of an \<^verbatim>\<open>int\<close> appends its four bytes and
  \<^verbatim>\<open>fwrite\<close> of a \<^verbatim>\<open>double\<close> its eight bytes, in memory order (taken little-endian;
  the reader uses the same order). \<^verbatim>\<open>fread\<close> of one item fails when fewer bytes than the
  item's size are left. The serializer never computes with the weight, so here the
  weight of a node is the 64-bit pattern of the \<^verbatim>\<open>double\<close>. Opening the file is not
  modelled: \<open>forest_save\<close> returns the bytes written and \<open>forest_load\<close> takes the bytes
  of the file; \<open>None\<close> is the \<^verbatim>\<open>NULL\<close> result.
\<close>

type_synonym byte = "8 word"

fun word_to_bytes :: "nat \<Rightarrow> 'a::len word \<Rightarrow> byte list" where
  "word_to_bytes 0 w = []"
| "word_to_bytes (Suc n) w = ucast w # word_to_bytes n (drop_bit 8 w)"

fun bytes_to_word :: "byte list \<Rightarrow> 'a::len word" where
  "bytes_to_word [] = 0"
| "bytes_to_word (b # bs) = ucast b OR push_bit 8 (bytes_to_word bs)"

definition fwrite_int :: "int \<Rightarrow> byte list" where
  "fwrite_int i = word_to_bytes 4 (word_of_int i :: 32 word)"

definition fwrite_double :: "64 word \<Rightarrow> byte list" where
  "fwrite_double d = word_to_bytes 8 d"

definition fread_int :: "byte list \<Rightarrow> (int \<times> byte list) option" where
  "fread_int bs =
     (if length bs < 4 then None
      else Some (sint (bytes_to_word (take 4 bs) :: 32 word), drop 4 bs))"

definition fread_double :: "byte list \<Rightarrow> (64 word \<times> byte list) option" where
  "fread_double bs =
     (if length bs < 8 then None
      else Some (bytes_to_word (take 8 bs), drop 8 bs))"

text \<open>\<^verbatim>\<open>fread(verts, sizeof(int), nverts, fp)\<close>: all \<^verbatim>\<open>nverts\<close> items or failure.\<close>

fun fread_ints :: "nat \<Rightarrow> byte list \<Rightarrow> (int list \<times> byte list) option" where
  "fread_ints 0 bs = Some ([], bs)"
| "fread_ints (Suc n) bs =
     (case fread_int bs of
        None \<Rightarrow> None
      | Some (v, bs') \<Rightarrow>
          (case fread_ints n bs' of
             None \<Rightarrow> None
           | Some (vs, bs'') \<Rightarrow> Some (v # vs, bs'')))"

fun write_node :: "64 word node \<Rightarrow> byte list" where
  "write_node (Node h cs) =
     fwrite_int (int (length (verts h))) @ concat (map fwrite_int (verts h)) @
     fwrite_double (weight h) @ fwrite_int (int (length cs)) @ concat (map write_node cs)"

definition forest_save :: "64 word forest \<Rightarrow> byte list" where
  "forest_save f = fwrite_int (int (length f)) @ concat (map write_node f)"

text \<open>
  \<^verbatim>\<open>read_node\<close>. \<^verbatim>\<open>malloc(sizeof(int) * nverts)\<close> fails for a negative count (the
  size wraps to a huge one); for the count 0 the C standard lets \<^verbatim>\<open>malloc\<close> return
  \<^verbatim>\<open>NULL\<close> or not, which is the parameter \<open>malloc0_null\<close>. \<open>read_children\<close> is the loop
  \<^verbatim>\<open>for (i = 0; i < nchildren; ++i)\<close> with the number of rounds left; a negative
  \<^verbatim>\<open>nchildren\<close> gives no round. The recursion ends because every node read takes bytes
  from the file; this is the termination proof further down.
\<close>

function read_node :: "bool \<Rightarrow> byte list \<Rightarrow> (64 word node \<times> byte list) option"
  and read_children ::
    "bool \<Rightarrow> nat \<Rightarrow> 64 word node \<Rightarrow> byte list \<Rightarrow> (64 word node \<times> byte list) option"
where
  "read_node malloc0_null fp =
     (case fread_int fp of
        None \<Rightarrow> None
      | Some (nv, fp1) \<Rightarrow>
          if nv < 0 \<or> (nv = 0 \<and> malloc0_null) then None
          else
            (case fread_ints (nat nv) fp1 of
               None \<Rightarrow> None
             | Some (vs, fp2) \<Rightarrow>
                 (case fread_double fp2 of
                    None \<Rightarrow> None
                  | Some (wt, fp3) \<Rightarrow>
                      (case fread_int fp3 of
                         None \<Rightarrow> None
                       | Some (nc, fp4) \<Rightarrow>
                           read_children malloc0_null (nat nc) (node_create vs wt) fp4))))"
| "read_children malloc0_null 0 nd fp = Some (nd, fp)"
| "read_children malloc0_null (Suc n) nd fp =
     (case read_node malloc0_null fp of
        None \<Rightarrow> None
      | Some (child, fp') \<Rightarrow> read_children malloc0_null n (node_add_child nd child) fp')"
  by pat_completeness auto

text \<open>\<^verbatim>\<open>forest_load\<close>: the root count, then that many nodes, each added as a root.\<close>

fun read_roots ::
  "bool \<Rightarrow> nat \<Rightarrow> 64 word forest \<Rightarrow> byte list \<Rightarrow> 64 word forest option" where
  "read_roots malloc0_null 0 f fp = Some f"
| "read_roots malloc0_null (Suc n) f fp =
     (case read_node malloc0_null fp of
        None \<Rightarrow> None
      | Some (r, fp') \<Rightarrow> read_roots malloc0_null n (f @ [r]) fp')"

definition forest_load :: "bool \<Rightarrow> byte list \<Rightarrow> 64 word forest option" where
  "forest_load malloc0_null fp =
     (case fread_int fp of
        None \<Rightarrow> None
      | Some (nroots, fp1) \<Rightarrow> read_roots malloc0_null (nat nroots) forest_create fp1)"

text \<open>
  What a forest in memory satisfies: counts and vertex identifiers are 32-bit \<^verbatim>\<open>int\<close>s.
  Where \<^verbatim>\<open>malloc(0)\<close> is \<^verbatim>\<open>NULL\<close>, a node without vertices cannot be read back; the
  insertion engine never creates one.
\<close>

fun node_fits :: "bool \<Rightarrow> 64 word node \<Rightarrow> bool" where
  "node_fits malloc0_null (Node h cs) =
     (int (length (verts h)) < 2 ^ 31 \<and>
      (verts h = [] \<longrightarrow> \<not> malloc0_null) \<and>
      list_all (\<lambda>v. - (2 ^ 31) \<le> v \<and> v < 2 ^ 31) (verts h) \<and>
      int (length cs) < 2 ^ 31 \<and>
      list_all (node_fits malloc0_null) cs)"

definition forest_fits :: "bool \<Rightarrow> 64 word forest \<Rightarrow> bool" where
  "forest_fits malloc0_null f =
     (int (length f) < 2 ^ 31 \<and> list_all (node_fits malloc0_null) f)"

section \<open>IEEE doubles\<close>

text \<open>
  A C \<^verbatim>\<open>double\<close> is NaN, an infinity with its sign (\<open>True\<close> for the negative one), or a
  finite number \<open>m * 2^e\<close> with \<open>\<bar>m\<bar> < 2^53\<close> and \<open>-1074 \<le> e \<le> 971\<close>, which covers the
  normal and the subnormal numbers (\<open>is_double\<close>). The two zeros are not told apart; no
  comparison tells them apart. \<open>valof\<close> is the number that a finite double stands for.

  \<open>dadd\<close> is the addition in round-to-nearest, ties-to-even. The exact sum of two finite
  doubles is an integer \<open>M\<close> times \<open>2^E\<close> with \<open>E\<close> the smaller of the two exponents. When
  \<open>M\<close> has more than 53 bits, the bits beyond the 53 leading ones are rounded away by
  \<open>round_even\<close>; a result of \<open>2^1024\<close> or more in size is an infinity. \<open>dgt\<close>, \<open>dge\<close> and
  \<open>dlt\<close> are \<^verbatim>\<open>>\<close>, \<^verbatim>\<open>>=\<close> and \<^verbatim>\<open><\<close>; each is false when an operand is NaN.
  \<open>EPSILON_d\<close> is the constant \<^verbatim>\<open>1e-9\<close>, the double nearest to \<open>10^-9\<close>. The sum
  \<^verbatim>\<open>B->weight + EPSILON\<close> is taken to be evaluated in double precision, as it is where
  \<^verbatim>\<open>FLT_EVAL_METHOD\<close> is 0.
\<close>

datatype double = NaN | Infinity bool | Finite int int

fun is_double :: "double \<Rightarrow> bool" where
  "is_double (Finite m e) = (\<bar>m\<bar> < 2 ^ 53 \<and> - 1074 \<le> e \<and> e \<le> 971)"
| "is_double d = True"

fun valof :: "double \<Rightarrow> real" where
  "valof (Finite m e) = real_of_int m * 2 powi e"
| "valof d = 0"

definition round_even :: "int \<Rightarrow> nat \<Rightarrow> int" where
  "round_even M k =
     (let q = M div 2 ^ k; r = M mod 2 ^ k in
      if 2 * r < 2 ^ k then q
      else if 2 * r > 2 ^ k then q + 1
      else if even q then q else q + 1)"

definition round_int :: "int \<Rightarrow> int \<Rightarrow> double" where
  "round_int M E =
     (let k = nat (bitlen \<bar>M\<bar> - 53); m = round_even M k; e = E + int k in
      if 0 \<le> e \<and> \<bar>m\<bar> * 2 ^ nat e \<ge> 2 ^ 1024 then Infinity (m < 0)
      else if \<bar>m\<bar> \<ge> 2 ^ 53 then Finite (m div 2) (e + 1)
      else Finite m e)"

fun dadd :: "double \<Rightarrow> double \<Rightarrow> double" where
  "dadd (Finite m1 e1) (Finite m2 e2) =
     (let E = min e1 e2 in round_int (m1 * 2 ^ nat (e1 - E) + m2 * 2 ^ nat (e2 - E)) E)"
| "dadd (Infinity s) (Finite m e) = Infinity s"
| "dadd (Finite m e) (Infinity s) = Infinity s"
| "dadd (Infinity s) (Infinity t) = (if s = t then Infinity s else NaN)"
| "dadd NaN y = NaN"
| "dadd x NaN = NaN"

fun dgt :: "double \<Rightarrow> double \<Rightarrow> bool" where
  "dgt (Finite m1 e1) (Finite m2 e2) =
     (let E = min e1 e2 in m1 * 2 ^ nat (e1 - E) > m2 * 2 ^ nat (e2 - E))"
| "dgt (Infinity s) (Finite m e) = (\<not> s)"
| "dgt (Finite m e) (Infinity s) = s"
| "dgt (Infinity s) (Infinity t) = (\<not> s \<and> t)"
| "dgt NaN y = False"
| "dgt x NaN = False"

definition EPSILON_d :: double where
  "EPSILON_d = Finite 4835703278458517 (- 82)"


fun dge :: "double \<Rightarrow> double \<Rightarrow> bool" where
  "dge (Finite m1 e1) (Finite m2 e2) =
     (let E = min e1 e2 in m1 * 2 ^ nat (e1 - E) \<ge> m2 * 2 ^ nat (e2 - E))"
| "dge (Infinity s) (Finite m e) = (\<not> s)"
| "dge (Finite m e) (Infinity s) = s"
| "dge (Infinity s) (Infinity t) = (\<not> s \<or> t)"
| "dge NaN y = False"
| "dge x NaN = False"

definition dlt :: "double \<Rightarrow> double \<Rightarrow> bool" where
  "dlt x y = dgt y x"

section \<open>Comparator and insertion on doubles\<close>

text \<open>
  The comparator and the insertion functions once more, with the weights as doubles:
  \<^verbatim>\<open>A->weight > B->weight + EPSILON\<close> is the double comparison of \<open>A\<close>'s weight with the
  rounded double sum. Apart from the arithmetic the text of each function is that of its
  namesake above. \<open>dominance_spec_d\<close> is the comparator as the specification words it,
  on vertex sets and their cardinalities, with the weight test taken over from the code.
\<close>

definition weighted_cmp_d :: "double hyperedge \<Rightarrow> double hyperedge \<Rightarrow> int" where
  "weighted_cmp_d A B =
     (if dgt (weight A) (dadd (weight B) EPSILON_d) then -1
      else if dgt (weight B) (dadd (weight A) EPSILON_d) then 1
      else
        let A_in_B = is_subset (verts A) (verts B);
            B_in_A = is_subset (verts B) (verts A)
        in if B_in_A \<and> \<not> A_in_B then -1
           else if A_in_B \<and> \<not> B_in_A then 1
           else if nverts A > nverts B then -1
           else if nverts B > nverts A then 1
           else 0)"

definition dominance_spec_d :: "double hyperedge \<Rightarrow> double hyperedge \<Rightarrow> int" where
  "dominance_spec_d A B =
     (if dgt (weight A) (dadd (weight B) EPSILON_d) then -1
      else if dgt (weight B) (dadd (weight A) EPSILON_d) then 1
      else if set (verts B) \<subseteq> set (verts A) \<and> \<not> set (verts A) \<subseteq> set (verts B) then -1
      else if set (verts A) \<subseteq> set (verts B) \<and> \<not> set (verts B) \<subseteq> set (verts A) then 1
      else if card (set (verts A)) > card (set (verts B)) then -1
      else if card (set (verts B)) > card (set (verts A)) then 1
      else 0)"

fun insert_into_node_d ::
    "double node \<Rightarrow> double node \<Rightarrow> nat \<Rightarrow> int \<times> double node \<times> double node"
  and insert_into_children_d ::
    "double node list \<Rightarrow> double node list \<Rightarrow> double node \<Rightarrow> nat
       \<Rightarrow> bool \<times> double node list \<times> double node"
where
  "insert_into_node_d (Node h cs) newn depth =
     (let cmp = weighted_cmp_d h (he newn) in
      if cmp = 1 then (1, Node h cs, newn)
      else if cmp = -1 then
        (if \<not> is_subset (verts (he newn)) (verts h) then (0, Node h cs, newn)
         else case insert_into_children_d [] cs newn (depth + 1) of
                (True, cs', newn') \<Rightarrow> (-1, Node h cs', newn')
              | (False, cs', newn') \<Rightarrow> (-1, node_add_child (Node h cs') newn', newn'))
      else (0, Node h cs, newn))"
| "insert_into_children_d pre [] newn depth = (False, pre, newn)"
| "insert_into_children_d pre (c # rest) newn depth =
     (case insert_into_node_d c newn depth of
        (res, c', newn') \<Rightarrow>
          if res = 1 then insert_into_children_d pre rest (node_add_child newn' c') depth
          else if res = -1 then (True, pre @ c' # rest, newn')
          else insert_into_children_d (pre @ [c']) rest newn' depth)"

fun forest_insert_roots_d ::
  "double node list \<Rightarrow> double node list \<Rightarrow> double node \<Rightarrow> double forest" where
  "forest_insert_roots_d pre [] newn = pre @ [newn]"
| "forest_insert_roots_d pre (r # rest) newn =
     (let cmp = weighted_cmp_d (he r) (he newn) in
      if cmp = 1 then forest_insert_roots_d pre rest (node_add_child newn r)
      else if cmp = -1 then
        (case insert_into_node_d r newn 1 of
           (res, r', newn') \<Rightarrow>
             if res = 1 then forest_insert_roots_d pre rest (node_add_child newn' r')
             else if res = -1 then pre @ r' # rest
             else forest_insert_roots_d (pre @ [r']) rest newn')
      else forest_insert_roots_d (pre @ [r]) rest newn)"

definition forest_insert_node_d :: "double forest \<Rightarrow> double node \<Rightarrow> double forest" where
  "forest_insert_node_d f newn = forest_insert_roots_d [] f newn"

text \<open>
  \<^verbatim>\<open>normalize_vertices\<close> with the overflow of \<^verbatim>\<open>cmp_int\<close>. The comparator returns
  \<^verbatim>\<open>a - b\<close>; when the difference of two elements of the array does not fit an
  \<^verbatim>\<open>int\<close> the subtraction overflows, the comparator is no order and \<^verbatim>\<open>qsort\<close> need not
  leave the array sorted. What it leaves then is the parameter \<open>qsort_wrapped\<close>. When no
  difference overflows (\<open>cmp_int_exact\<close>) the array is sorted.
\<close>

definition cmp_int_exact :: "int list \<Rightarrow> bool" where
  "cmp_int_exact vs = list_all (\<lambda>a. list_all (\<lambda>b. - (2 ^ 31) \<le> a - b \<and> a - b < 2 ^ 31) vs) vs"

definition normalize_vertices_q :: "(int list \<Rightarrow> int list) \<Rightarrow> int list \<Rightarrow> int list" where
  "normalize_vertices_q qsort_wrapped vs =
     (if length vs = 0 then []
      else let a = (if cmp_int_exact vs then sort vs else qsort_wrapped vs)
           in dedup_loop [hd a] (tl a))"

definition insert_hyperedge_d ::
  "(int list \<Rightarrow> int list) \<Rightarrow> double forest \<Rightarrow> int list \<Rightarrow> double \<Rightarrow> double forest" where
  "insert_hyperedge_d qsort_wrapped f vs w =
     (let norm = normalize_vertices_q qsort_wrapped vs in
      if length norm = 0 then f
      else forest_insert_node_d f (node_create norm w))"

definition forest_insert_batch_d ::
  "(int list \<Rightarrow> int list) \<Rightarrow> double forest \<Rightarrow> (int list \<times> double) list \<Rightarrow> double forest" where
  "forest_insert_batch_d qsort_wrapped f edges =
     fold (\<lambda>(vs, w) f. insert_hyperedge_d qsort_wrapped f vs w) edges f"

text \<open>
  \<^verbatim>\<open>verify_weight_monotonicity\<close> returns 0 at the first child whose weight is greater
  than the double sum of the parent's weight and \<^verbatim>\<open>1e-9\<close>, or whose subtree fails, and 1
  otherwise.
\<close>

fun verify_weight_monotonicity :: "double node \<Rightarrow> bool" where
  "verify_weight_monotonicity (Node h cs) =
     list_all (\<lambda>c. \<not> dgt (weight (he c)) (dadd (weight h) EPSILON_d) \<and>
                   verify_weight_monotonicity c) cs"

definition verify_forest :: "double forest \<Rightarrow> bool" where
  "verify_forest f = list_all verify_weight_monotonicity f"

text \<open>
  The invariant of insertion: the test of \<open>verify_weight_monotonicity\<close> at every edge,
  together with every weight being a double.
\<close>

fun weights_sound :: "double node \<Rightarrow> bool" where
  "weights_sound (Node h cs) =
     (is_double (weight h) \<and>
      list_all (\<lambda>c. \<not> dgt (weight (he c)) (dadd (weight h) EPSILON_d) \<and> weights_sound c) cs)"

text \<open>
  \<^verbatim>\<open>count_by_threshold_recursive\<close> answers 0 for a node below the threshold without
  looking at its children. \<open>linear_scan_count\<close> is the full linear scan of the
  specification: every node of the forest is tested with \<^verbatim>\<open>>=\<close>.
\<close>

fun count_by_threshold_recursive :: "double node \<Rightarrow> double \<Rightarrow> nat" where
  "count_by_threshold_recursive (Node h cs) threshold =
     (if dlt (weight h) threshold then 0
      else 1 + sum_list (map (\<lambda>c. count_by_threshold_recursive c threshold) cs))"

definition find_by_weight_threshold :: "double forest \<Rightarrow> double \<Rightarrow> nat" where
  "find_by_weight_threshold f threshold =
     sum_list (map (\<lambda>r. count_by_threshold_recursive r threshold) f)"

definition linear_scan_count :: "double forest \<Rightarrow> double \<Rightarrow> nat" where
  "linear_scan_count f threshold =
     length (filter (\<lambda>nd. dge (weight (he nd)) threshold) (collect_all_nodes f))"

section \<open>Chains\<close>

text \<open>
  Auxiliary notions for the chain \<open>{1} \<subset> {1,2} \<subset> \<dots>\<close>: the hyperedge with vertices
  \<open>1..k\<close> and weight \<open>w k\<close>, the forest that is a single chain over a list of such
  sizes, and insertion of a size into a descending list.
\<close>

definition chain_he :: "(nat \<Rightarrow> real) \<Rightarrow> nat \<Rightarrow> real hyperedge" where
  "chain_he w k = \<lparr>verts = map int [1..<Suc k], weight = w k\<rparr>"

fun chain_forest :: "(nat \<Rightarrow> real) \<Rightarrow> nat list \<Rightarrow> real forest" where
  "chain_forest w [] = []"
| "chain_forest w (k # ks) = [Node (chain_he w k) (chain_forest w ks)]"

fun insert_desc :: "nat \<Rightarrow> nat list \<Rightarrow> nat list" where
  "insert_desc k [] = [k]"
| "insert_desc k (j # js) = (if j < k then k # j # js else j # insert_desc k js)"


section \<open>Set inclusion on canonical arrays\<close>

lemma is_subset_iff_subset:
  "sorted_wrt (<) A \<Longrightarrow> sorted_wrt (<) B \<Longrightarrow> is_subset A B \<longleftrightarrow> set A \<subseteq> set B"
proof (induction A B rule: is_subset.induct)
  case (1 B)
  then show ?case by simp
next
  case (2 a A)
  then show ?case by simp
next
  case (3 a A b B)
  show ?case
  proof (cases "a = b")
    case True
    with 3 have "is_subset (a # A) (b # B) \<longleftrightarrow> set A \<subseteq> set B" by simp
    moreover from 3 True have "b \<notin> set A" by auto
    ultimately show ?thesis using True by auto
  next
    case False
    show ?thesis
    proof (cases "a > b")
      case True
      with 3 False have "is_subset (a # A) (b # B) \<longleftrightarrow> set (a # A) \<subseteq> set B" by simp
      moreover from 3 True have "b \<notin> set (a # A)" by auto
      ultimately show ?thesis by auto
    next
      case F2: False
      with False have lt: "a < b" by simp
      with 3 have "a \<notin> set (b # B)" by auto
      with False F2 show ?thesis by simp
    qed
  qed
qed

lemma canonical_card: "canonical vs \<Longrightarrow> card (set vs) = length vs"
  unfolding canonical_def
  by (simp add: distinct_card strict_sorted_iff)

section \<open>Double arithmetic\<close>

text \<open>
  The comparisons of finite doubles are the comparisons of their values, rounding never
  goes below a double that the exact sum has reached, and so adding \<open>EPSILON_d\<close> never
  makes a double smaller. It follows that the two weight tests of the comparator
  exclude each other.
\<close>

lemma scale_exponent:
  "E \<le> e \<Longrightarrow> real_of_int (m * 2 ^ nat (e - E)) * 2 powi E = real_of_int m * 2 powi e"
proof -
  assume "E \<le> e"
  then have "(2::real) ^ nat (e - E) = 2 powi (e - E)" by (simp add: power_int_def)
  then have "real_of_int (m * 2 ^ nat (e - E)) * 2 powi E = real_of_int m * (2 powi (e - E) * 2 powi E)"
    by simp
  also have "2 powi (e - E) * 2 powi E = (2::real) powi e"
    by (simp add: power_int_add [symmetric])
  finally show ?thesis .
qed

lemma dgt_valof:
  "dgt (Finite m1 e1) (Finite m2 e2) \<longleftrightarrow> valof (Finite m1 e1) > valof (Finite m2 e2)"
proof -
  define E where "E = min e1 e2"
  have p: "(0::real) < 2 powi E" by simp
  have "dgt (Finite m1 e1) (Finite m2 e2) \<longleftrightarrow>
        real_of_int (m2 * 2 ^ nat (e2 - E)) < real_of_int (m1 * 2 ^ nat (e1 - E))"
    unfolding E_def by (simp add: Let_def del: of_int_mult of_int_power)
  also have "\<dots> \<longleftrightarrow> real_of_int (m2 * 2 ^ nat (e2 - E)) * 2 powi E
        < real_of_int (m1 * 2 ^ nat (e1 - E)) * 2 powi E"
    using p by (simp del: of_int_mult of_int_power)
  also have "\<dots> \<longleftrightarrow> valof (Finite m1 e1) > valof (Finite m2 e2)"
    by (simp add: scale_exponent E_def del: of_int_mult of_int_power)
  finally show ?thesis .
qed

lemma dge_valof:
  "dge (Finite m1 e1) (Finite m2 e2) \<longleftrightarrow> valof (Finite m1 e1) \<ge> valof (Finite m2 e2)"
proof -
  define E where "E = min e1 e2"
  have p: "(0::real) < 2 powi E" by simp
  have "dge (Finite m1 e1) (Finite m2 e2) \<longleftrightarrow>
        real_of_int (m2 * 2 ^ nat (e2 - E)) \<le> real_of_int (m1 * 2 ^ nat (e1 - E))"
    unfolding E_def by (simp add: Let_def del: of_int_mult of_int_power)
  also have "\<dots> \<longleftrightarrow> real_of_int (m2 * 2 ^ nat (e2 - E)) * 2 powi E
        \<le> real_of_int (m1 * 2 ^ nat (e1 - E)) * 2 powi E"
    using p by (simp del: of_int_mult of_int_power)
  also have "\<dots> \<longleftrightarrow> valof (Finite m1 e1) \<ge> valof (Finite m2 e2)"
    by (simp add: scale_exponent E_def del: of_int_mult of_int_power)
  finally show ?thesis .
qed

lemma dgt_dge_trans: "dgt a c \<Longrightarrow> dge c b \<Longrightarrow> dgt a b"
  by (cases a; cases b; cases c) (auto simp: dgt_valof dge_valof simp del: dgt.simps(1) dge.simps(1) valof.simps)

lemma dgt_asym: "dgt a b \<Longrightarrow> \<not> dgt b a"
  by (cases a; cases b) (auto simp: dgt_valof simp del: dgt.simps(1) valof.simps)

lemma round_even_ge: "M div 2 ^ k \<le> round_even M k"
  by (simp add: round_even_def Let_def)

lemma round_even_le: "round_even M k \<le> M div 2 ^ k + 1"
  by (simp add: round_even_def Let_def)

lemma round_even_0 [simp]: "round_even M 0 = M"
  by (simp add: round_even_def)

lemma bitlen_excess:
  assumes "0 < nat (bitlen \<bar>M\<bar> - 53)"
  shows "2 ^ (52 + nat (bitlen \<bar>M\<bar> - 53)) \<le> \<bar>M\<bar>"
proof -
  define k where "k = nat (bitlen \<bar>M\<bar> - 53)"
  from assms have bl: "bitlen \<bar>M\<bar> = 53 + int k" by (simp add: k_def)
  have pos: "0 < \<bar>M\<bar>"
  proof (rule ccontr)
    assume "\<not> 0 < \<bar>M\<bar>"
    then have "M = 0" by simp
    with bl show False by (simp add: bitlen_def floorlog_def)
  qed
  from bitlen_bounds[OF pos] have "2 ^ nat (bitlen \<bar>M\<bar> - 1) \<le> \<bar>M\<bar>" by simp
  moreover have "nat (bitlen \<bar>M\<bar> - 1) = 52 + k" using bl by simp
  ultimately show ?thesis by (simp add: k_def)
qed

lemma rne_lower:
  assumes mv: "\<bar>mv\<bar> < 2 ^ 53"
    and le: "real_of_int mv * 2 powi ev \<le> real_of_int M * 2 powi E"
  shows "real_of_int mv * 2 powi ev \<le>
         real_of_int (round_even M (nat (bitlen \<bar>M\<bar> - 53))) * 2 powi (E + int (nat (bitlen \<bar>M\<bar> - 53)))"
proof -
  define k where "k = nat (bitlen \<bar>M\<bar> - 53)"
  define m where "m = round_even M k"
  define q where "q = M div 2 ^ k"
  have qm: "q \<le> m" unfolding q_def m_def by (rule round_even_ge)
  have p: "(0::real) < 2 powi (E + int k)" by simp
  show ?thesis unfolding k_def[symmetric] m_def[symmetric]
  proof (cases "k = 0")
    case True
    with le show "real_of_int mv * 2 powi ev \<le> real_of_int m * 2 powi (E + int k)"
      by (simp add: m_def)
  next
    case False
    then have kpos: "0 < nat (bitlen \<bar>M\<bar> - 53)" by (simp add: k_def)
    have lo: "2 ^ (52 + k) \<le> \<bar>M\<bar>" using bitlen_excess[OF kpos] by (simp add: k_def)
    have sM: "real_of_int M * 2 powi E = (real_of_int M / 2 ^ k) * 2 powi (E + int k)"
      by (simp add: power_int_add)
    show "real_of_int mv * 2 powi ev \<le> real_of_int m * 2 powi (E + int k)"
    proof (cases "E + int k \<le> ev")
      case True
      define n where "n = mv * 2 ^ nat (ev - (E + int k))"
      have v: "real_of_int mv * 2 powi ev = real_of_int n * 2 powi (E + int k)"
        unfolding n_def by (rule scale_exponent[OF True, of mv, symmetric])
      from le have "real_of_int n * 2 powi (E + int k) \<le> (real_of_int M / 2 ^ k) * 2 powi (E + int k)"
        by (simp only: v sM)
      then have "real_of_int n \<le> real_of_int M / 2 ^ k"
        by (rule mult_right_le_imp_le) (rule p)
      then have "real_of_int n * 2 ^ k \<le> real_of_int M" by (simp add: field_simps)
      then have "real_of_int (n * 2 ^ k) \<le> real_of_int M" by simp
      then have "n * 2 ^ k \<le> M" by (simp only: of_int_le_iff)
      then have "(n * 2 ^ k) div 2 ^ k \<le> M div 2 ^ k" by (intro zdiv_mono1) simp_all
      then have "n \<le> q" by (simp add: q_def)
      with qm have "n \<le> m" by simp
      then have "real_of_int n * 2 powi (E + int k) \<le> real_of_int m * 2 powi (E + int k)"
        using p by simp
      with v show ?thesis by simp
    next
      case False
      then have ev: "ev \<le> E + int k - 1" by simp
      have "\<bar>real_of_int mv * 2 powi ev\<bar> = real_of_int \<bar>mv\<bar> * 2 powi ev"
        by (simp add: abs_mult)
      also have "\<dots> < 2 ^ 53 * 2 powi ev"
      proof -
        from mv have "real_of_int \<bar>mv\<bar> < real_of_int (2 ^ 53)" by (simp only: of_int_less_iff)
        then show ?thesis by simp
      qed
      also have "\<dots> \<le> 2 ^ 53 * 2 powi (E + int k - 1)"
        using ev by (simp add: power_int_increasing)
      also have "\<dots> = 2 powi (52 + (E + int k))"
        by (simp add: power_int_add power_int_diff)
      finally have vb: "\<bar>real_of_int mv * 2 powi ev\<bar> < 2 powi (52 + (E + int k))" .
      have big: "(2::real) powi (52 + (E + int k)) = 2 ^ (52 + k) * 2 powi E"
        by (simp add: power_int_add power_add)
      show ?thesis
      proof (cases "0 < M")
        case True
        with lo have "2 ^ (52 + k) \<le> M" by simp
        then have "(2 ^ 52 * 2 ^ k) div 2 ^ k \<le> M div 2 ^ k"
          by (intro zdiv_mono1) (simp_all add: power_add)
        then have "2 ^ 52 \<le> q" by (simp add: q_def)
        with qm have "2 ^ 52 \<le> m" by simp
        then have "real_of_int (2 ^ 52) \<le> real_of_int m" by (simp only: of_int_le_iff)
        then have "real_of_int (2 ^ 52) * 2 powi (E + int k) \<le> real_of_int m * 2 powi (E + int k)"
          using p by (intro mult_right_mono) simp_all
        moreover have "(2::real) powi (52 + (E + int k)) = real_of_int (2 ^ 52) * 2 powi (E + int k)"
          by (simp add: power_int_add)
        moreover have "real_of_int mv * 2 powi ev \<le> \<bar>real_of_int mv * 2 powi ev\<bar>"
          by (rule abs_ge_self)
        ultimately show ?thesis using vb by linarith
      next
        case False
        with lo have "M \<le> - (2 ^ (52 + k))" by simp
        then have "real_of_int M \<le> real_of_int (- (2 ^ (52 + k)))" by (simp only: of_int_le_iff)
        then have "real_of_int M * 2 powi E \<le> real_of_int (- (2 ^ (52 + k))) * 2 powi E"
          by (intro mult_right_mono) simp_all
        moreover have "real_of_int (- (2 ^ (52 + k))) * 2 powi E = - ((2::real) powi (52 + (E + int k)))"
          by (simp add: big)
        moreover have "- \<bar>real_of_int mv * 2 powi ev\<bar> \<le> real_of_int mv * 2 powi ev"
          by (simp add: abs_le_iff[symmetric] del: abs_mult) 
        ultimately show ?thesis using le vb by linarith
      qed
    qed
  qed
qed

lemma round_even_abs_bound:
  "\<bar>round_even M (nat (bitlen \<bar>M\<bar> - 53))\<bar> \<le> 2 ^ 53"
proof -
  define k where "k = nat (bitlen \<bar>M\<bar> - 53)"
  have up: "\<bar>M\<bar> < 2 ^ (53 + k)"
  proof (cases "M = 0")
    case True
    then show ?thesis by simp
  next
    case False
    then have "\<bar>M\<bar> < 2 ^ nat (bitlen \<bar>M\<bar>)" using bitlen_bounds[of "\<bar>M\<bar>"] by simp
    also have "\<dots> \<le> 2 ^ (53 + k)"
      by (intro power_increasing) (simp_all add: k_def)
    finally show ?thesis .
  qed
  have "M div 2 ^ k < 2 ^ 53"
  proof (rule ccontr)
    assume "\<not> M div 2 ^ k < 2 ^ 53"
    then have "2 ^ 53 \<le> M div 2 ^ k" by simp
    then have "2 ^ 53 * 2 ^ k \<le> (M div 2 ^ k) * 2 ^ k"
      by (intro mult_right_mono) simp_all
    also have "\<dots> \<le> (M div 2 ^ k) * 2 ^ k + M mod 2 ^ k" by simp
    also have "\<dots> = M" by (rule div_mult_mod_eq)
    finally show False using up by (simp add: power_add)
  qed
  moreover have "- (2 ^ 53) \<le> M div 2 ^ k"
  proof -
    from up have "(- (2 ^ 53)) * 2 ^ k \<le> M" by (simp add: power_add)
    then have "((- (2 ^ 53)) * 2 ^ k) div 2 ^ k \<le> M div 2 ^ k"
      by (intro zdiv_mono1) simp_all
    moreover have "((- (2 ^ 53)) * 2 ^ k) div 2 ^ k = - (2 ^ 53 :: int)"
      by (rule nonzero_mult_div_cancel_right) simp
    ultimately show ?thesis by (simp only:)
  qed
  ultimately show ?thesis
    using round_even_ge[of M k] round_even_le[of M k] unfolding k_def[symmetric] by simp
qed

lemma round_int_lower:
  assumes mv: "\<bar>mv\<bar> < 2 ^ 53" and ev: "ev \<le> 971"
    and le: "real_of_int mv * 2 powi ev \<le> real_of_int M * 2 powi E"
  shows "dge (round_int M E) (Finite mv ev)"
proof -
  define k where "k = nat (bitlen \<bar>M\<bar> - 53)"
  define m where "m = round_even M k"
  define e where "e = E + int k"
  have low: "real_of_int mv * 2 powi ev \<le> real_of_int m * 2 powi e"
    unfolding m_def e_def k_def by (rule rne_lower[OF mv le])
  have mb: "\<bar>m\<bar> \<le> 2 ^ 53" unfolding m_def k_def by (rule round_even_abs_bound)
  have vlow: "- (2 ^ 1024) < real_of_int mv * 2 powi ev"
  proof -
    have "\<bar>real_of_int mv * 2 powi ev\<bar> = real_of_int \<bar>mv\<bar> * 2 powi ev"
      by (simp add: abs_mult)
    also have "\<dots> < real_of_int (2 ^ 53) * 2 powi ev"
      using mv by (intro mult_strict_right_mono) (simp_all only: of_int_less_iff zero_less_power_int zero_less_numeral)
    also have "\<dots> \<le> real_of_int (2 ^ 53) * 2 powi 971"
      using ev by (intro mult_left_mono power_int_increasing) simp_all
    also have "\<dots> = 2 ^ 1024" by (simp add: power_int_def)
    finally show ?thesis by (simp add: abs_less_iff del: abs_mult)
  qed
  have r: "round_int M E =
      (if 0 \<le> e \<and> \<bar>m\<bar> * 2 ^ nat e \<ge> 2 ^ 1024 then Infinity (m < 0)
       else if \<bar>m\<bar> \<ge> 2 ^ 53 then Finite (m div 2) (e + 1)
       else Finite m e)"
    by (simp add: round_int_def Let_def k_def m_def e_def)
  show ?thesis
  proof (cases "0 \<le> e \<and> \<bar>m\<bar> * 2 ^ nat e \<ge> 2 ^ 1024")
    case True
    have "\<not> m < 0"
    proof
      assume neg: "m < 0"
      with True have "2 ^ 1024 \<le> (- m) * 2 ^ nat e" by simp
      then have "real_of_int (2 ^ 1024) \<le> real_of_int ((- m) * 2 ^ nat e)"
        by (simp only: of_int_le_iff)
      moreover have "(2::real) powi e = 2 ^ nat e"
        using True by (simp add: power_int_def)
      then have "real_of_int ((- m) * 2 ^ nat e) = - (real_of_int m * 2 powi e)"
        by simp
      moreover have "real_of_int (2 ^ 1024) = (2::real) ^ 1024" by simp
      ultimately have "real_of_int m * 2 powi e \<le> - (2 ^ 1024)" by linarith
      with low vlow show False by linarith
    qed
    with True have "round_int M E = Infinity False" by (simp only: r if_True simp_thms)
    then show ?thesis by simp
  next
    case False
    show ?thesis
    proof (cases "\<bar>m\<bar> \<ge> 2 ^ 53")
      case True
      with mb have "\<bar>m\<bar> = 2 ^ 53" by simp
      then have "even m" by (metis even_abs_add_iff even_add even_numeral even_power zero_less_numeral)
      then have "real_of_int (m div 2) * 2 powi (e + 1) = real_of_int m * 2 powi e"
        by (auto simp: power_int_add elim!: evenE)
      with low have "valof (Finite mv ev) \<le> valof (Finite (m div 2) (e + 1))" by simp
      then have "dge (Finite (m div 2) (e + 1)) (Finite mv ev)" by (simp only: dge_valof)
      moreover from False True have "round_int M E = Finite (m div 2) (e + 1)"
        by (simp only: r if_False if_True)
      ultimately show ?thesis by (simp only:)
    next
      case F2: False
      from low have "valof (Finite mv ev) \<le> valof (Finite m e)" by simp
      then have "dge (Finite m e) (Finite mv ev)" by (simp only: dge_valof)
      moreover from False F2 have "round_int M E = Finite m e"
        by (simp only: r if_False)
      ultimately show ?thesis by (simp only:)
    qed
  qed
qed

lemma dadd_eps_ge:
  assumes "is_double x" and "x \<noteq> NaN"
  shows "dge (dadd x EPSILON_d) x"
proof (cases x)
  case NaN
  with assms show ?thesis by simp
next
  case (Infinity s)
  then show ?thesis by (simp add: EPSILON_d_def)
next
  case (Finite m e)
  define E where "E = min e (- 82)"
  define M where "M = m * 2 ^ nat (e - E) + 4835703278458517 * 2 ^ nat (- 82 - E)"
  have "real_of_int M * 2 powi E =
        real_of_int (m * 2 ^ nat (e - E)) * 2 powi E +
        real_of_int (4835703278458517 * 2 ^ nat (- 82 - E)) * 2 powi E"
    unfolding M_def by (simp only: of_int_add distrib_right)
  also have "\<dots> = real_of_int m * 2 powi e + real_of_int 4835703278458517 * 2 powi (- 82)"
  proof -
    have "real_of_int (m * 2 ^ nat (e - E)) * 2 powi E = real_of_int m * 2 powi e"
      by (rule scale_exponent) (simp add: E_def)
    moreover have "real_of_int (4835703278458517 * 2 ^ nat (- 82 - E)) * 2 powi E =
        real_of_int 4835703278458517 * 2 powi (- 82)"
      by (rule scale_exponent) (simp add: E_def)
    ultimately show ?thesis by (simp only:)
  qed
  finally have "real_of_int m * 2 powi e \<le> real_of_int M * 2 powi E" by simp
  moreover from assms Finite have "\<bar>m\<bar> < 2 ^ 53" "e \<le> 971" by simp_all
  ultimately have "dge (round_int M E) (Finite m e)" by (intro round_int_lower)
  then show ?thesis unfolding Finite by (simp add: EPSILON_d_def Let_def M_def E_def)
qed

lemma tolerance_exclusive:
  assumes "is_double a" and "is_double b" and "dgt a (dadd b EPSILON_d)"
  shows "\<not> dgt b (dadd a EPSILON_d)"
proof
  assume ba: "dgt b (dadd a EPSILON_d)"
  have "b \<noteq> NaN" using assms(3) ba by (cases b) auto
  have "a \<noteq> NaN" using assms(3) by (cases a) auto
  have "dgt a b" using assms(3) dadd_eps_ge[OF assms(2) \<open>b \<noteq> NaN\<close>] by (rule dgt_dge_trans)
  moreover have "dgt b a" using ba dadd_eps_ge[OF assms(1) \<open>a \<noteq> NaN\<close>] by (rule dgt_dge_trans)
  ultimately show False using dgt_asym by blast
qed

lemma EPSILON_d_nearest: "\<bar>valof EPSILON_d - 1 / 10 ^ 9\<bar> < 2 powi (- 83)"
  by (simp add: EPSILON_d_def power_int_def power_divide abs_less_iff)

lemma EPSILON_d_is_double: "is_double EPSILON_d"
  by (simp add: EPSILON_d_def)


section \<open>The comparator decides as specified\<close>

text \<open>
  C3, as amended. On hyperedges in canonical form \<open>weighted_cmp_d\<close> decides in the order
  of the specification, where "exceeds by more than \<open>1e-9\<close>" is the test of the code:
  \<open>A\<close> dominates when its weight is greater than the double sum of \<open>B\<close>'s weight and
  \<open>1e-9\<close>, and symmetrically for \<open>B\<close>; then one-sided inclusion of the vertex sets (the
  superset dominates), then the larger cardinality; when neither weight test holds and
  the cardinalities are equal the result is \<open>0\<close>.
\<close>

theorem C3_weighted_cmp_order_rounded:
  assumes "canonical (verts A)" and "canonical (verts B)"
  shows "weighted_cmp_d A B = dominance_spec_d A B \<and>
         (\<not> dgt (weight A) (dadd (weight B) EPSILON_d) \<and>
          \<not> dgt (weight B) (dadd (weight A) EPSILON_d) \<and>
          card (set (verts A)) = card (set (verts B)) \<longrightarrow> weighted_cmp_d A B = 0)"
proof -
  have s1: "is_subset (verts A) (verts B) \<longleftrightarrow> set (verts A) \<subseteq> set (verts B)"
    using assms by (simp add: canonical_def is_subset_iff_subset)
  have s2: "is_subset (verts B) (verts A) \<longleftrightarrow> set (verts B) \<subseteq> set (verts A)"
    using assms by (simp add: canonical_def is_subset_iff_subset)
  have c1: "nverts A = card (set (verts A))" and c2: "nverts B = card (set (verts B))"
    using assms by (simp_all add: nverts_def canonical_card)
  have eq: "weighted_cmp_d A B = dominance_spec_d A B"
    unfolding weighted_cmp_d_def dominance_spec_d_def Let_def s1 s2 c1 c2
    by (rule refl)
  have tie: "weighted_cmp_d A B = 0"
    if w: "\<not> dgt (weight A) (dadd (weight B) EPSILON_d)"
        "\<not> dgt (weight B) (dadd (weight A) EPSILON_d)"
      and c: "card (set (verts A)) = card (set (verts B))"
  proof -
    have "set (verts B) \<subseteq> set (verts A) \<Longrightarrow> set (verts A) \<subseteq> set (verts B)"
      using c by (metis List.finite_set card_subset_eq order_refl)
    moreover have "set (verts A) \<subseteq> set (verts B) \<Longrightarrow> set (verts B) \<subseteq> set (verts A)"
      using c by (metis List.finite_set card_subset_eq order_refl)
    ultimately show ?thesis
      using w c unfolding eq dominance_spec_d_def by auto
  qed
  from eq tie show ?thesis by blast
qed


theorem C3_weighted_cmp_order_rounded_witness:
  "canonical (verts \<lparr>verts = [1, 2], weight = Finite 4503599631874096 (- 52)\<rparr>) \<and>
   canonical (verts \<lparr>verts = [1, 2, 3], weight = Finite 1 0\<rparr>) \<and>
   weighted_cmp_d \<lparr>verts = [1, 2], weight = Finite 4503599631874096 (- 52)\<rparr>
                  \<lparr>verts = [1, 2, 3], weight = Finite 1 0\<rparr> = 1 \<and>
   dominance_spec_d \<lparr>verts = [1, 2], weight = Finite 4503599631874096 (- 52)\<rparr>
                    \<lparr>verts = [1, 2, 3], weight = Finite 1 0\<rparr> = 1"
proof -
  have c: "weighted_cmp_d \<lparr>verts = [1, 2], weight = Finite 4503599631874096 (- 52)\<rparr>
                  \<lparr>verts = [1, 2, 3], weight = Finite 1 0\<rparr> = 1"
    by code_simp
  from C3_weighted_cmp_order_rounded
    [of "\<lparr>verts = [1, 2], weight = Finite 4503599631874096 (- 52)\<rparr>"
        "\<lparr>verts = [1, 2, 3], weight = Finite 1 0\<rparr>"] c
  show ?thesis by (simp add: canonical_def)
qed


text \<open>
  C3 as stated, with an exact difference, fails. Take \<open>A = {1,2}\<close> with the weight
  \<open>1.000000001\<close> (the double \<open>4503599631874096 * 2^-52\<close>) and \<open>B = {1,2,3}\<close> with the weight
  1. The weight of \<open>A\<close> exceeds that of \<open>B\<close> by more than \<open>10^-9\<close>, and by more than the
  double \<open>1e-9\<close>; but the double sum \<open>1 + 1e-9\<close> rounds up to the weight of \<open>A\<close>, the weight
  test does not hold, and \<open>B\<close> dominates as the superset.
\<close>

theorem C3_weighted_cmp_order_counterexample:
  "weighted_cmp_d \<lparr>verts = [1, 2], weight = Finite 4503599631874096 (- 52)\<rparr>
                  \<lparr>verts = [1, 2, 3], weight = Finite 1 0\<rparr> = 1 \<and>
   valof (Finite 4503599631874096 (- 52)) > valof (Finite 1 0) + 1 / 10 ^ 9 \<and>
   valof (Finite 4503599631874096 (- 52)) > valof (Finite 1 0) + valof EPSILON_d \<and>
   dadd (Finite 1 0) EPSILON_d = Finite 4503599631874096 (- 52)"
proof -
  have c: "weighted_cmp_d \<lparr>verts = [1, 2], weight = Finite 4503599631874096 (- 52)\<rparr>
                  \<lparr>verts = [1, 2, 3], weight = Finite 1 0\<rparr> = 1"
    by code_simp
  have d: "dadd (Finite 1 0) EPSILON_d = Finite 4503599631874096 (- 52)"
    by code_simp
  have v: "valof (Finite 4503599631874096 (- 52)) > valof (Finite 1 0) + 1 / 10 ^ 9"
    "valof (Finite 4503599631874096 (- 52)) > valof (Finite 1 0) + valof EPSILON_d"
    by (simp_all add: EPSILON_d_def power_int_def power_divide)
  from c d v show ?thesis by simp
qed


section \<open>Insertion keeps the weights monotone\<close>

lemma he_add_child [simp]: "he (node_add_child p c) = he p"
  by (simp add: node_add_child_def)

lemma cmp_d_minus_one:
  "is_double (weight A) \<Longrightarrow> is_double (weight B) \<Longrightarrow> weighted_cmp_d A B = -1 \<Longrightarrow>
     \<not> dgt (weight B) (dadd (weight A) EPSILON_d)"
  using tolerance_exclusive[of "weight A" "weight B"]
  by (auto simp: weighted_cmp_d_def Let_def split: if_splits)

lemma cmp_d_one:
  "weighted_cmp_d A B = 1 \<Longrightarrow> \<not> dgt (weight A) (dadd (weight B) EPSILON_d)"
  by (auto simp: weighted_cmp_d_def Let_def split: if_splits)

lemma sound_add_child:
  "weights_sound (node_add_child p c) \<longleftrightarrow>
     weights_sound p \<and> \<not> dgt (weight (he c)) (dadd (weight (he p)) EPSILON_d) \<and>
     weights_sound c"
  by (cases p) (auto simp: node_add_child_def)

lemma sound_is_double: "weights_sound nd \<Longrightarrow> is_double (weight (he nd))"
  by (cases nd) simp

lemma insert_d_preserves_sound:
  "weights_sound r \<Longrightarrow> weights_sound newn \<Longrightarrow>
     (case insert_into_node_d r newn d of
        (res, r', newn') \<Rightarrow>
          weights_sound r' \<and> weights_sound newn' \<and>
          he r' = he r \<and> he newn' = he newn \<and>
          (res = 1 \<longrightarrow> \<not> dgt (weight (he r)) (dadd (weight (he newn)) EPSILON_d)))"
  "list_all weights_sound pre \<Longrightarrow> list_all weights_sound cs \<Longrightarrow> weights_sound newn \<Longrightarrow>
     (case insert_into_children_d pre cs newn d of
        (b, cs', newn') \<Rightarrow>
          list_all weights_sound cs' \<and> weights_sound newn' \<and>
          he newn' = he newn \<and> he ` set cs' \<subseteq> he ` (set pre \<union> set cs))"
proof (induction r newn d and pre cs newn d rule: insert_into_node_d_insert_into_children_d.induct)
  case (1 h cs newn depth)
  show ?case
  proof (cases "weighted_cmp_d h (he newn) = -1 \<and> is_subset (verts (he newn)) (verts h)")
    case False
    with 1(2,3) show ?thesis
      by (auto simp: Let_def dest: cmp_d_one)
  next
    case True
    then have c: "weighted_cmp_d h (he newn) = -1" and s: "is_subset (verts (he newn)) (verts h)"
      by simp_all
    obtain b cs' newn' where r: "insert_into_children_d [] cs newn (depth + 1) = (b, cs', newn')"
      by (cases "insert_into_children_d [] cs newn (depth + 1)") auto
    from 1(2) have hd: "is_double (weight h)" and csm: "list_all weights_sound cs"
      and csw: "\<forall>c\<in>set cs. \<not> dgt (weight (he c)) (dadd (weight h) EPSILON_d)"
      by (auto simp: list_all_iff)
    have ih: "list_all weights_sound cs' \<and> weights_sound newn' \<and>
          he newn' = he newn \<and> he ` set cs' \<subseteq> he ` (set [] \<union> set cs)"
      using 1(1)[of "weighted_cmp_d h (he newn)"] c s csm 1(3) r by simp
    then have bound: "\<forall>c\<in>set cs'. \<not> dgt (weight (he c)) (dadd (weight h) EPSILON_d)"
      using csw by auto
    have root': "weights_sound (Node h cs')"
      using ih bound hd by (auto simp: list_all_iff)
    have nw: "\<not> dgt (weight (he newn')) (dadd (weight h) EPSILON_d)"
      using cmp_d_minus_one[OF hd sound_is_double[OF 1(3)] c] ih by simp
    show ?thesis
      using c s r root' nw ih by (cases b) (simp_all add: sound_add_child)
  qed
next
  case (2 pre newn depth)
  then show ?case by simp
next
  case (3 pre c rest newn depth)
  obtain res c' newn' where r: "insert_into_node_d c newn depth = (res, c', newn')"
    by (cases "insert_into_node_d c newn depth") auto
  from 3(4,5,6) have cm: "weights_sound c" and restm: "list_all weights_sound rest"
    by simp_all
  have ih1: "weights_sound c' \<and> weights_sound newn' \<and>
          he c' = he c \<and> he newn' = he newn \<and>
          (res = 1 \<longrightarrow> \<not> dgt (weight (he c)) (dadd (weight (he newn)) EPSILON_d))"
    using 3(1)[OF cm 3(6)] r by simp
  show ?case
  proof (cases "res = 1")
    case True
    have m: "weights_sound (node_add_child newn' c')"
      using ih1 True by (simp add: sound_add_child)
    have "case insert_into_children_d pre rest (node_add_child newn' c') depth of
        (b, cs', newn'') \<Rightarrow>
          list_all weights_sound cs' \<and> weights_sound newn'' \<and>
          he newn'' = he (node_add_child newn' c') \<and> he ` set cs' \<subseteq> he ` (set pre \<union> set rest)"
      using 3(2)[OF r[symmetric] refl True 3(4) restm m] .
    then show ?thesis using r True ih1 by (auto split: prod.splits)
  next
    case False
    show ?thesis
    proof (cases "res = -1")
      case True
      then show ?thesis using r ih1 3(4) restm by auto
    next
      case F2: False
      have p: "list_all weights_sound (pre @ [c'])" using 3(4) ih1 by simp
      have "case insert_into_children_d (pre @ [c']) rest newn' depth of
        (b, cs', newn'') \<Rightarrow>
          list_all weights_sound cs' \<and> weights_sound newn'' \<and>
          he newn'' = he newn' \<and> he ` set cs' \<subseteq> he ` (set (pre @ [c']) \<union> set rest)"
        using 3(3)[OF r[symmetric] refl False F2 p restm] ih1 by simp
      then show ?thesis using r False F2 ih1 by (auto split: prod.splits)
    qed
  qed
qed

lemma forest_insert_roots_d_sound:
  "list_all weights_sound pre \<Longrightarrow> list_all weights_sound rs \<Longrightarrow> weights_sound newn \<Longrightarrow>
     list_all weights_sound (forest_insert_roots_d pre rs newn)"
proof (induction pre rs newn rule: forest_insert_roots_d.induct)
  case (1 pre newn)
  then show ?case by simp
next
  case (2 pre r rest newn)
  from 2(6) have rm: "weights_sound r" and restm: "list_all weights_sound rest" by simp_all
  obtain res r' newn' where ins: "insert_into_node_d r newn 1 = (res, r', newn')"
    by (cases "insert_into_node_d r newn 1") auto
  have ih: "weights_sound r' \<and> weights_sound newn' \<and>
          he r' = he r \<and> he newn' = he newn \<and>
          (res = 1 \<longrightarrow> \<not> dgt (weight (he r)) (dadd (weight (he newn)) EPSILON_d))"
    using insert_d_preserves_sound(1)[OF rm 2(7), of 1] ins by simp
  consider (steal) "weighted_cmp_d (he r) (he newn) = 1"
    | (down) "weighted_cmp_d (he r) (he newn) = -1"
    | (tie) "weighted_cmp_d (he r) (he newn) \<noteq> 1" "weighted_cmp_d (he r) (he newn) \<noteq> -1"
    by blast
  then show ?case
  proof cases
    case steal
    have "weights_sound (node_add_child newn r)"
      using rm 2(7) cmp_d_one[OF steal] by (simp add: sound_add_child)
    from 2(1)[OF refl steal 2(5) restm this] steal show ?thesis by simp
  next
    case down
    then have ne: "weighted_cmp_d (he r) (he newn) \<noteq> 1" by simp
    show ?thesis
    proof (cases "res = 1")
      case True
      have "weights_sound (node_add_child newn' r')"
        using ih True by (simp add: sound_add_child)
      from 2(2)[OF refl ne down ins[symmetric] refl True 2(5) restm this] down ins True
      show ?thesis by simp
    next
      case False
      show ?thesis
      proof (cases "res = -1")
        case True
        then show ?thesis using down ins ih 2(5) restm by simp
      next
        case F2: False
        have "list_all weights_sound (pre @ [r'])" using 2(5) ih by simp
        from 2(3)[OF refl ne down ins[symmetric] refl False F2 this restm] ih down ins False F2
        show ?thesis by simp
      qed
    qed
  next
    case tie
    have "list_all weights_sound (pre @ [r])" using 2(5) rm by simp
    from 2(4)[OF refl tie this restm 2(7)] tie show ?thesis by simp
  qed
qed

lemma insert_hyperedge_d_sound:
  "list_all weights_sound f \<Longrightarrow> is_double w \<Longrightarrow>
     list_all weights_sound (insert_hyperedge_d q f vs w)"
  using forest_insert_roots_d_sound[of "[]" f "node_create (normalize_vertices_q q vs) w"]
  by (simp add: insert_hyperedge_d_def Let_def forest_insert_node_d_def node_create_def)

lemma forest_insert_batch_d_sound:
  "list_all weights_sound f \<Longrightarrow> list_all (\<lambda>(vs, w). is_double w) edges \<Longrightarrow>
     list_all weights_sound (forest_insert_batch_d q f edges)"
  unfolding forest_insert_batch_d_def
  by (induction edges arbitrary: f) (auto simp: insert_hyperedge_d_sound)

lemma sound_verify: "weights_sound nd \<Longrightarrow> verify_weight_monotonicity nd"
  by (induction nd) (auto simp: list_all_iff)

lemma verify_children_bound:
  "verify_weight_monotonicity nd \<Longrightarrow> m \<in> set (collect_all_nodes_recursive nd) \<Longrightarrow>
   c \<in> set (children m) \<Longrightarrow> \<not> dgt (weight (he c)) (dadd (weight (he m)) EPSILON_d)"
proof (induction nd arbitrary: m c)
  case (Node h cs)
  from Node.prems(2) consider "m = Node h cs"
    | k where "k \<in> set cs" "m \<in> set (collect_all_nodes_recursive k)"
    by auto
  then show ?case
  proof cases
    case 1
    with Node.prems(1,3) show ?thesis by (auto simp: list_all_iff)
  next
    case 2
    with Node.prems(1) have "verify_weight_monotonicity k" by (auto simp: list_all_iff)
    from Node.IH[OF 2(1) this 2(2) Node.prems(3)] show ?thesis .
  qed
qed

text \<open>
  C1, as amended. In every forest built from the empty forest by a sequence of
  \<open>insert_hyperedge\<close> calls whose weights are doubles, \<open>verify_forest\<close> succeeds: for every
  node of the forest, no child's weight is greater than the double sum of the node's
  weight and \<open>1e-9\<close>. This holds whatever \<^verbatim>\<open>qsort\<close> leaves of a vertex array on which
  \<^verbatim>\<open>cmp_int\<close> overflows.
\<close>

theorem C1_weight_monotonicity_rounded:
  assumes "list_all (\<lambda>(vs, w). is_double w) edges"
  shows "verify_forest (forest_insert_batch_d qsort_wrapped forest_create edges) \<and>
   (\<forall>nd \<in> set (collect_all_nodes (forest_insert_batch_d qsort_wrapped forest_create edges)).
      \<forall>c \<in> set (children nd).
        \<not> dgt (weight (he c)) (dadd (weight (he nd)) EPSILON_d))"
proof -
  have "list_all weights_sound (forest_insert_batch_d qsort_wrapped forest_create edges)"
    using assms by (intro forest_insert_batch_d_sound) (simp_all add: forest_create_def)
  then have v: "verify_forest (forest_insert_batch_d qsort_wrapped forest_create edges)"
    by (auto simp: verify_forest_def list_all_iff sound_verify)
  have "\<not> dgt (weight (he c)) (dadd (weight (he nd)) EPSILON_d)"
    if "nd \<in> set (collect_all_nodes (forest_insert_batch_d qsort_wrapped forest_create edges))"
      and "c \<in> set (children nd)" for nd c
  proof -
    from that(1) obtain r where r: "r \<in> set (forest_insert_batch_d qsort_wrapped forest_create edges)"
      and nd: "nd \<in> set (collect_all_nodes_recursive r)"
      by (auto simp: collect_all_nodes_def)
    from v r have "verify_weight_monotonicity r"
      by (simp add: verify_forest_def list_all_iff)
    from verify_children_bound[OF this nd that(2)] show ?thesis .
  qed
  with v show ?thesis by blast
qed


theorem C1_weight_monotonicity_rounded_witness:
  "list_all (\<lambda>(vs, w). is_double w)
     [([1, 2, 3], Finite 1 23), ([1, 2], Finite 4503599627370497 (- 29))] \<and>
   verify_forest (forest_insert_batch_d sort forest_create
     [([1, 2, 3], Finite 1 23), ([1, 2], Finite 4503599627370497 (- 29))]) \<and>
   \<not> dgt (Finite 4503599627370497 (- 29)) (dadd (Finite 1 23) EPSILON_d)"
proof -
  have h: "list_all (\<lambda>(vs, w). is_double w)
     [([1, 2, 3], Finite 1 23), ([1, 2], Finite 4503599627370497 (- 29))]"
    by simp
  have a: "forest_insert_batch_d sort forest_create
     [([1, 2, 3], Finite 1 23), ([1, 2], Finite 4503599627370497 (- 29))] =
     [Node \<lparr>verts = [1, 2, 3], weight = Finite 1 23\<rparr>
        [Node \<lparr>verts = [1, 2], weight = Finite 4503599627370497 (- 29)\<rparr> []]]"
    by code_simp
  from C1_weight_monotonicity_rounded[OF h, of sort] h show ?thesis
    by (simp add: a collect_all_nodes_def)
qed


text \<open>
  C1 as stated, with the exact sum, fails. The double sum of \<open>8388608\<close> and \<open>1e-9\<close> is the
  next double, \<open>8388608 + 2^-29\<close>; inserting \<open>{1,2,3}\<close> with the weight \<open>8388608\<close> and then
  \<open>{1,2}\<close> with the weight \<open>8388608 + 2^-29\<close> (written \<^verbatim>\<open>8388608.000000002\<close>) makes the
  second the child of the first, heavier than its parent by \<open>2^-29\<close>, which is more than
  \<open>10^-9\<close>. And \<open>{1,2}\<close> with the weight 5 becomes the child of \<open>{1,2,3}\<close> with the weight
  NaN, where no bound holds.
\<close>

theorem C1_weight_monotonicity_counterexample:
  "forest_insert_batch_d sort forest_create
     [([1, 2, 3], Finite 1 23), ([1, 2], Finite 4503599627370497 (- 29))] =
     [Node \<lparr>verts = [1, 2, 3], weight = Finite 1 23\<rparr>
        [Node \<lparr>verts = [1, 2], weight = Finite 4503599627370497 (- 29)\<rparr> []]] \<and>
   is_double (Finite 1 23) \<and> is_double (Finite 4503599627370497 (- 29)) \<and>
   valof (Finite 4503599627370497 (- 29)) > valof (Finite 1 23) + 1 / 10 ^ 9 \<and>
   forest_insert_batch_d sort forest_create [([1, 2, 3], NaN), ([1, 2], Finite 5 0)] =
     [Node \<lparr>verts = [1, 2, 3], weight = NaN\<rparr> [Node \<lparr>verts = [1, 2], weight = Finite 5 0\<rparr> []]]"
proof -
  have a: "forest_insert_batch_d sort forest_create
     [([1, 2, 3], Finite 1 23), ([1, 2], Finite 4503599627370497 (- 29))] =
     [Node \<lparr>verts = [1, 2, 3], weight = Finite 1 23\<rparr>
        [Node \<lparr>verts = [1, 2], weight = Finite 4503599627370497 (- 29)\<rparr> []]]"
    by code_simp
  have b: "forest_insert_batch_d sort forest_create [([1, 2, 3], NaN), ([1, 2], Finite 5 0)] =
     [Node \<lparr>verts = [1, 2, 3], weight = NaN\<rparr> [Node \<lparr>verts = [1, 2], weight = Finite 5 0\<rparr> []]]"
    by code_simp
  have c: "valof (Finite 4503599627370497 (- 29)) > valof (Finite 1 23) + 1 / 10 ^ 9"
    by (simp add: power_int_def power_divide)
  from a b c show ?thesis by simp
qed

section \<open>Threshold query\<close>

text \<open>
  C5. The claim asks that \<open>find_by_weight_threshold\<close> count what a linear scan counts.
  Inserting \<open>{1,2}\<close> with the weight 1 and then \<open>{1}\<close> with the weight \<open>1.0000000005\<close> (the
  double \<open>4503599629622296 * 2^-52\<close>) makes \<open>{1}\<close> the child of \<open>{1,2}\<close>: the weights are
  within the tolerance and \<open>{1,2}\<close> is the superset. At the threshold \<open>1.0000000003\<close> (the
  double \<open>4503599628721576 * 2^-52\<close>) the query stops at the root, which is below the
  threshold, and returns 0; the child is at or above the threshold and the linear scan
  counts 1.
\<close>

theorem C5_threshold_count_misses_node:
  "forest_insert_batch_d sort forest_create
     [([1, 2], Finite 1 0), ([1], Finite 4503599629622296 (- 52))] =
     [Node \<lparr>verts = [1, 2], weight = Finite 1 0\<rparr>
        [Node \<lparr>verts = [1], weight = Finite 4503599629622296 (- 52)\<rparr> []]] \<and>
   find_by_weight_threshold
     [Node \<lparr>verts = [1, 2], weight = Finite 1 0\<rparr>
        [Node \<lparr>verts = [1], weight = Finite 4503599629622296 (- 52)\<rparr> []]]
     (Finite 4503599628721576 (- 52)) = 0 \<and>
   linear_scan_count
     [Node \<lparr>verts = [1, 2], weight = Finite 1 0\<rparr>
        [Node \<lparr>verts = [1], weight = Finite 4503599629622296 (- 52)\<rparr> []]]
     (Finite 4503599628721576 (- 52)) = 1"
  by code_simp

section \<open>Empty vertex lists\<close>

lemma dedup_loop_nonempty: "kept \<noteq> [] \<Longrightarrow> dedup_loop kept xs \<noteq> []"
  by (induction kept xs rule: dedup_loop.induct) auto

lemma normalize_empty_iff: "normalize_vertices vs = [] \<longleftrightarrow> vs = []"
  using dedup_loop_nonempty[of "[hd (sort vs)]" "tl (sort vs)"]
  by (auto simp: normalize_vertices_def Let_def)

text \<open>
  C9. Inserting a vertex list that normalizes to the empty sequence leaves the forest as
  it is and creates no node; the empty list is such a list, and it is the only one.
\<close>

theorem C9_empty_insert_is_noop:
  "(normalize_vertices vs = [] \<longrightarrow>
      insert_hyperedge f vs w = f \<and>
      count_total_nodes (insert_hyperedge f vs w) = count_total_nodes f) \<and>
   insert_hyperedge f [] w = f \<and>
   (normalize_vertices vs = [] \<longleftrightarrow> vs = [])"
  using normalize_empty_iff[of vs]
  by (auto simp: insert_hyperedge_def Let_def normalize_vertices_def)

theorem C9_empty_insert_is_noop_witness:
  "normalize_vertices [] = [] \<and>
   insert_hyperedge [Node \<lparr>verts = [1, 2], weight = 1\<rparr> []] [] 5 =
     [Node \<lparr>verts = [1, 2], weight = 1\<rparr> []]"
  using C9_empty_insert_is_noop [of "[]" "[Node \<lparr>verts = [1, 2], weight = 1\<rparr> []]" 5]
  by simp

section \<open>Edges without set inclusion\<close>

text \<open>
  C2. The claim asks that every parent/child edge be justified by set inclusion. In
  \<open>forest_insert_node\<close> a root that loses the comparison is put under the new node
  without the inclusion test, and \<open>insert_into_node\<close> does the same with a child that
  answers \<open>1\<close>; the test is made only when the new node goes under an existing one.
  Inserting \<open>{1,2}\<close> (weight 1) and then \<open>{3,4}\<close> (weight 2) makes the first a child of
  the second although the sets are disjoint; in the other order they are two roots.
  Inserting \<open>{1,2,3}\<close> (3), \<open>{1}\<close> (1), \<open>{2,3}\<close> (2) moves \<open>{1}\<close> under \<open>{2,3}\<close>.
\<close>

theorem C2_edge_without_inclusion:
  "forest_insert_batch forest_create [([1, 2], 1), ([3, 4], 2)] =
     [Node \<lparr>verts = [3, 4], weight = 2\<rparr> [Node \<lparr>verts = [1, 2], weight = 1\<rparr> []]] \<and>
   \<not> is_subset [1, 2] [3, 4] \<and>
   forest_insert_batch forest_create [([3, 4], 2), ([1, 2], 1)] =
     [Node \<lparr>verts = [3, 4], weight = 2\<rparr> [], Node \<lparr>verts = [1, 2], weight = 1\<rparr> []] \<and>
   forest_insert_batch forest_create [([1, 2, 3], 3), ([1], 1), ([2, 3], 2)] =
     [Node \<lparr>verts = [1, 2, 3], weight = 3\<rparr>
        [Node \<lparr>verts = [2, 3], weight = 2\<rparr> [Node \<lparr>verts = [1], weight = 1\<rparr> []]]] \<and>
   \<not> is_subset [1] [2, 3]"
  by code_simp

section \<open>Merging duplicates\<close>

text \<open>
  C7. The claim asks that a group of nodes with the same vertex set end as a single node
  carrying the maximum or the mean of the weights. The code writes the combined weight
  into the first node of the group and leaves the other nodes of the group in the
  forest with their old weights: three insertions of \<open>{1,2,3}\<close> with weights 5, 7, 3 are
  still three nodes after merging with the maximum, and two insertions of \<open>{1,2}\<close> with
  weights 1 and 2 are still two nodes, of weights 3/2 and 1, after merging with the mean.
\<close>

theorem C7_merge_keeps_duplicates:
  "forest_merge_duplicates
     (forest_insert_batch forest_create [([1, 2, 3], 5), ([1, 2, 3], 7), ([1, 2, 3], 3)]) True =
     ([Node \<lparr>verts = [1, 2, 3], weight = 7\<rparr>
         [Node \<lparr>verts = [1, 2, 3], weight = 5\<rparr>
            [Node \<lparr>verts = [1, 2, 3], weight = 3\<rparr> []]]], 2) \<and>
   count_total_nodes (fst (forest_merge_duplicates
     (forest_insert_batch forest_create [([1, 2, 3], 5), ([1, 2, 3], 7), ([1, 2, 3], 3)]) True)) = 3 \<and>
   forest_merge_duplicates
     (forest_insert_batch forest_create [([1, 2], 1), ([1, 2], 2)]) False =
     ([Node \<lparr>verts = [1, 2], weight = 3 / 2\<rparr> [Node \<lparr>verts = [1, 2], weight = 1\<rparr> []]], 1)"
  by code_simp

section \<open>Pruning\<close>

lemma count_nodes_pos: "count_nodes_recursive nd \<ge> 1"
  by (cases nd) simp

lemma count_nodes_children: "children nd \<noteq> [] \<Longrightarrow> count_nodes_recursive nd \<ge> 2"
proof (cases nd)
  case (Node h cs)
  assume "children nd \<noteq> []"
  with Node obtain c cs' where "cs = c # cs'" by (cases cs) auto
  with Node show ?thesis using count_nodes_pos[of c] by simp
qed

lemma prune_children_count:
  "(case prune_node_children nd t rc of
      (nd', rc') \<Rightarrow>
        rc' = rc + length (concat (map (\<lambda>c. maximal_pruned c t) (children nd))) \<and>
        count_nodes_recursive nd =
          count_nodes_recursive nd' +
          sum_list (map count_nodes_recursive (concat (map (\<lambda>c. maximal_pruned c t) (children nd)))))"
  "(case prune_children cs t rc of
      (cs', rc') \<Rightarrow>
        rc' = rc + length (concat (map (\<lambda>c. maximal_pruned c t) cs)) \<and>
        sum_list (map count_nodes_recursive cs) =
          sum_list (map count_nodes_recursive cs') +
          sum_list (map count_nodes_recursive (concat (map (\<lambda>c. maximal_pruned c t) cs))))"
proof (induction nd t rc and cs t rc rule: prune_node_children_prune_children.induct)
  case (1 h cs threshold removed_count)
  then show ?case by (auto split: prod.splits)
next
  case (2 threshold removed_count)
  then show ?case by simp
next
  case (3 c rest threshold removed_count)
  show ?case
  proof (cases "should_prune c threshold")
    case True
    then have mp: "maximal_pruned c threshold = [c]"
      by (cases c) (simp add: should_prune_def)
    from 3(1)[OF True] True mp show ?thesis by (auto split: prod.splits)
  next
    case False
    obtain c' rc' where pc: "prune_node_children c threshold removed_count = (c', rc')"
      by (cases "prune_node_children c threshold removed_count") auto
    obtain rest' rc'' where pr: "prune_children rest threshold rc' = (rest', rc'')"
      by (cases "prune_children rest threshold rc'") auto
    from False have mp: "maximal_pruned c threshold =
        concat (map (\<lambda>k. maximal_pruned k threshold) (children c))"
      by (cases c) (simp add: should_prune_def)
    from 3(2)[OF False] pc have a: "rc' = removed_count + length (maximal_pruned c threshold)"
      "count_nodes_recursive c = count_nodes_recursive c' +
         sum_list (map count_nodes_recursive (maximal_pruned c threshold))"
      by (simp_all add: mp)
    from 3(3)[OF False pc[symmetric]] pr
    have b: "rc'' = rc' + length (concat (map (\<lambda>c. maximal_pruned c threshold) rest))"
      "sum_list (map count_nodes_recursive rest) =
          sum_list (map count_nodes_recursive rest') +
          sum_list (map count_nodes_recursive (concat (map (\<lambda>c. maximal_pruned c threshold) rest)))"
      by simp_all
    show ?thesis using False pc pr a b by simp
  qed
qed

lemma prune_roots_count:
  "(case prune_roots rs t rc of
      (rs', rc') \<Rightarrow>
        rc' = rc + length (concat (map (\<lambda>c. maximal_pruned c t) rs)) \<and>
        sum_list (map count_nodes_recursive rs) =
          sum_list (map count_nodes_recursive rs') +
          sum_list (map count_nodes_recursive (concat (map (\<lambda>c. maximal_pruned c t) rs))))"
proof (induction rs t rc rule: prune_roots.induct)
  case (1 threshold removed_count)
  then show ?case by simp
next
  case (2 r rest threshold removed_count)
  show ?case
  proof (cases "should_prune r threshold")
    case True
    then have mp: "maximal_pruned r threshold = [r]"
      by (cases r) (simp add: should_prune_def)
    from 2(1)[OF True] True mp show ?thesis by (auto split: prod.splits)
  next
    case False
    obtain r' rc' where pc: "prune_node_children r threshold removed_count = (r', rc')"
      by (cases "prune_node_children r threshold removed_count") auto
    obtain rest' rc'' where pr: "prune_roots rest threshold rc' = (rest', rc'')"
      by (cases "prune_roots rest threshold rc'") auto
    from False have mp: "maximal_pruned r threshold =
        concat (map (\<lambda>k. maximal_pruned k threshold) (children r))"
      by (cases r) (simp add: should_prune_def)
    from prune_children_count(1)[where nd=r and t=threshold and rc=removed_count] pc
    have a: "rc' = removed_count + length (maximal_pruned r threshold)"
      "count_nodes_recursive r = count_nodes_recursive r' +
         sum_list (map count_nodes_recursive (maximal_pruned r threshold))"
      by (simp_all add: mp)
    from 2(2)[OF False pc[symmetric]] pr
    have b: "rc'' = rc' + length (concat (map (\<lambda>c. maximal_pruned c threshold) rest))"
      "sum_list (map count_nodes_recursive rest) =
          sum_list (map count_nodes_recursive rest') +
          sum_list (map count_nodes_recursive (concat (map (\<lambda>c. maximal_pruned c threshold) rest)))"
      by simp_all
    show ?thesis using False pc pr a b by simp
  qed
qed

lemma sum_count_ge_length: "sum_list (map count_nodes_recursive ns) \<ge> length ns"
proof (induction ns)
  case Nil
  then show ?case by simp
next
  case (Cons a ns)
  then show ?case using count_nodes_pos[of a] by simp
qed

lemma sum_count_gt_length:
  "nd \<in> set ns \<Longrightarrow> children nd \<noteq> [] \<Longrightarrow> sum_list (map count_nodes_recursive ns) > length ns"
proof (induction ns)
  case Nil
  then show ?case by simp
next
  case (Cons a ns)
  show ?case
  proof (cases "nd = a")
    case True
    with Cons.prems have "count_nodes_recursive a \<ge> 2" by (simp add: count_nodes_children)
    moreover have "sum_list (map count_nodes_recursive ns) \<ge> length ns" by (rule sum_count_ge_length)
    ultimately show ?thesis by simp
  next
    case False
    with Cons have "sum_list (map count_nodes_recursive ns) > length ns" by simp
    moreover have "count_nodes_recursive a \<ge> 1" by (rule count_nodes_pos)
    ultimately show ?thesis by simp
  qed
qed

text \<open>
  C10. The value returned by \<open>forest_prune_by_weight\<close> is the number of maximal pruned
  subtrees (nodes below the threshold whose parent, or root position, stays), while the
  node count drops by the total size of those subtrees; so the returned value is at most
  the drop, and strictly smaller as soon as one pruned subtree root has a child.
\<close>

theorem C10_prune_counts_subtree_roots:
  assumes "forest_prune_by_weight f threshold = (f', removed)"
  shows "removed = length (forest_maximal_pruned f threshold) \<and>
         count_total_nodes f - count_total_nodes f' =
           sum_list (map count_nodes_recursive (forest_maximal_pruned f threshold)) \<and>
         removed \<le> count_total_nodes f - count_total_nodes f' \<and>
         ((\<exists>nd \<in> set (forest_maximal_pruned f threshold). children nd \<noteq> []) \<longrightarrow>
            removed < count_total_nodes f - count_total_nodes f')"
proof -
  from prune_roots_count[where rs=f and t=threshold and rc=0] assms
  have r: "removed = length (forest_maximal_pruned f threshold)"
    and c: "count_total_nodes f = count_total_nodes f' +
          sum_list (map count_nodes_recursive (forest_maximal_pruned f threshold))"
    by (simp_all add: forest_prune_by_weight_def forest_maximal_pruned_def count_total_nodes_def)
  from c have d: "count_total_nodes f - count_total_nodes f' =
           sum_list (map count_nodes_recursive (forest_maximal_pruned f threshold))" by simp
  show ?thesis
    using r d sum_count_ge_length[of "forest_maximal_pruned f threshold"]
      sum_count_gt_length[of _ "forest_maximal_pruned f threshold"]
    by auto
qed

theorem C10_prune_counts_subtree_roots_witness:
  "forest_prune_by_weight
     [Node \<lparr>verts = [1, 2, 3], weight = 3\<rparr>
        [Node \<lparr>verts = [1, 2], weight = 2\<rparr> [Node \<lparr>verts = [1], weight = 1\<rparr> []]]] (5 / 2) =
     ([Node \<lparr>verts = [1, 2, 3], weight = 3\<rparr> []], 1) \<and>
   length (forest_maximal_pruned
     [Node \<lparr>verts = [1, 2, 3], weight = 3\<rparr>
        [Node \<lparr>verts = [1, 2], weight = 2\<rparr> [Node \<lparr>verts = [1], weight = 1\<rparr> []]]] (5 / 2)) = 1 \<and>
   count_total_nodes
     [Node \<lparr>verts = [1, 2, 3], weight = 3\<rparr>
        [Node \<lparr>verts = [1, 2], weight = 2\<rparr> [Node \<lparr>verts = [1], weight = (1::real)\<rparr> []]]] -
   count_total_nodes [Node \<lparr>verts = [1, 2, 3], weight = (3::real)\<rparr> []] = 2"
proof -
  have e: "forest_prune_by_weight
     [Node \<lparr>verts = [1, 2, 3], weight = 3\<rparr>
        [Node \<lparr>verts = [1, 2], weight = 2\<rparr> [Node \<lparr>verts = [1], weight = 1\<rparr> []]]] (5 / 2) =
     ([Node \<lparr>verts = [1, 2, 3], weight = 3\<rparr> []], 1)"
    by code_simp
  have m: "forest_maximal_pruned
     [Node \<lparr>verts = [1, 2, 3], weight = 3\<rparr>
        [Node \<lparr>verts = [1, 2], weight = 2\<rparr> [Node \<lparr>verts = [1], weight = 1\<rparr> []]]] (5 / 2) =
     [Node \<lparr>verts = [1, 2], weight = 2\<rparr> [Node \<lparr>verts = [1], weight = 1\<rparr> []]]"
    by code_simp
  from C10_prune_counts_subtree_roots[OF e] e m show ?thesis by simp
qed

section \<open>Chains are built in any order\<close>

lemma dedup_loop_strict:
  "kept \<noteq> [] \<Longrightarrow> sorted_wrt (<) (last kept # xs) \<Longrightarrow> dedup_loop kept xs = kept @ xs"
  by (induction xs arbitrary: kept) auto

lemma normalize_canonical:
  assumes "sorted_wrt (<) vs" and "vs \<noteq> []"
  shows "normalize_vertices vs = vs"
proof -
  from assms(1) have "sort vs = vs" by (simp add: sorted_sort_id strict_sorted_imp_sorted)
  moreover from assms obtain v vs' where "vs = v # vs'" by (cases vs) auto
  ultimately show ?thesis
    using assms(1) dedup_loop_strict[of "[v]" vs'] by (simp add: normalize_vertices_def)
qed

lemma chain_verts_canonical: "sorted_wrt (<) (verts (chain_he w k))"
  by (simp add: chain_he_def sorted_wrt_map del: upt_Suc)

lemma chain_verts_subset:
  "is_subset (verts (chain_he w i)) (verts (chain_he w j)) \<longleftrightarrow> i \<le> j"
proof -
  have "is_subset (verts (chain_he w i)) (verts (chain_he w j)) \<longleftrightarrow>
        set (verts (chain_he w i)) \<subseteq> set (verts (chain_he w j))"
    by (rule is_subset_iff_subset) (rule chain_verts_canonical)+
  also have "\<dots> \<longleftrightarrow> int ` {1..<Suc i} \<subseteq> int ` {1..<Suc j}"
    by (simp add: chain_he_def del: upt_Suc)
  also have "\<dots> \<longleftrightarrow> {1..<Suc i} \<subseteq> {1..<Suc j}"
    by (simp add: inj_image_subset_iff)
  also have "\<dots> \<longleftrightarrow> i \<le> j" by auto
  finally show ?thesis .
qed

lemma chain_cmp:
  assumes "i < j" and "w i < w j"
  shows "weighted_cmp (chain_he w j) (chain_he w i) = -1"
    and "weighted_cmp (chain_he w i) (chain_he w j) = 1"
proof -
  have s1: "is_subset (verts (chain_he w i)) (verts (chain_he w j))"
    and s2: "\<not> is_subset (verts (chain_he w j)) (verts (chain_he w i))"
    using assms(1) by (simp_all add: chain_verts_subset)
  have w: "weight (chain_he w i) = w i" "weight (chain_he w j) = w j"
    by (simp_all add: chain_he_def)
  show "weighted_cmp (chain_he w j) (chain_he w i) = -1"
    using assms(2) s1 s2 by (simp add: weighted_cmp_def w EPSILON_def Let_def)
  show "weighted_cmp (chain_he w i) (chain_he w j) = 1"
    using assms(2) s1 s2 by (simp add: weighted_cmp_def w EPSILON_def Let_def)
qed

lemma insert_into_chain:
  assumes "sorted_wrt (>) (k0 # ks)" and "k < k0" and "k \<notin> set ks"
    and "\<forall>i \<in> set (k # k0 # ks). \<forall>j \<in> set (k # k0 # ks). i < j \<longrightarrow> w i < w j"
  shows "\<exists>newn'. insert_into_node (Node (chain_he w k0) (chain_forest w ks))
           (Node (chain_he w k) []) d =
         (-1, Node (chain_he w k0) (chain_forest w (insert_desc k ks)), newn')"
  using assms
proof (induction ks arbitrary: k0 d)
  case Nil
  then have "w k < w k0" by simp
  from chain_cmp[OF Nil(2) this] Nil(2) show ?case
    by (simp add: chain_verts_subset node_add_child_def)
next
  case (Cons k1 ks)
  have wk: "w k < w k0" using Cons.prems by simp
  have c0: "weighted_cmp (chain_he w k0) (chain_he w k) = -1"
    by (rule chain_cmp[OF Cons.prems(2) wk])
  have s0: "is_subset (verts (chain_he w k)) (verts (chain_he w k0))"
    using Cons.prems(2) by (simp add: chain_verts_subset)
  from Cons.prems(3) have ne: "k \<noteq> k1" by auto
  show ?case
  proof (cases "k1 < k")
    case True
    have "w k1 < w k" using Cons.prems(4) True by simp
    from chain_cmp(2)[OF True this] c0 s0 True show ?thesis
      by (simp add: node_add_child_def)
  next
    case False
    with ne have lt: "k < k1" by simp
    have "\<exists>newn'. insert_into_node (Node (chain_he w k1) (chain_forest w ks))
           (Node (chain_he w k) []) (d + 1) =
         (-1, Node (chain_he w k1) (chain_forest w (insert_desc k ks)), newn')"
      using Cons.prems by (intro Cons.IH) (auto simp: lt)
    then obtain newn' where "insert_into_node (Node (chain_he w k1) (chain_forest w ks))
           (Node (chain_he w k) []) (d + 1) =
         (-1, Node (chain_he w k1) (chain_forest w (insert_desc k ks)), newn')" ..
    with c0 s0 False show ?thesis by simp
  qed
qed

lemma forest_insert_chain:
  assumes "sorted_wrt (>) ks" and "k \<notin> set ks"
    and "\<forall>i \<in> set (k # ks). \<forall>j \<in> set (k # ks). i < j \<longrightarrow> w i < w j"
  shows "forest_insert_node (chain_forest w ks) (Node (chain_he w k) []) =
         chain_forest w (insert_desc k ks)"
proof (cases ks)
  case Nil
  then show ?thesis by (simp add: forest_insert_node_def)
next
  case (Cons k0 ks')
  from assms(2) Cons have ne: "k \<noteq> k0" by auto
  show ?thesis
  proof (cases "k0 < k")
    case True
    have "w k0 < w k" using assms(3) Cons True by simp
    from chain_cmp(2)[OF True this] True Cons show ?thesis
      by (simp add: forest_insert_node_def node_add_child_def)
  next
    case False
    with ne have lt: "k < k0" by simp
    have "w k < w k0" using assms(3) Cons lt by simp
    note c0 = chain_cmp(1)[OF lt this]
    have "\<exists>newn'. insert_into_node (Node (chain_he w k0) (chain_forest w ks'))
           (Node (chain_he w k) []) 1 =
         (-1, Node (chain_he w k0) (chain_forest w (insert_desc k ks')), newn')"
      using assms Cons lt by (intro insert_into_chain) auto
    then obtain newn' where "insert_into_node (Node (chain_he w k0) (chain_forest w ks'))
           (Node (chain_he w k) []) 1 =
         (-1, Node (chain_he w k0) (chain_forest w (insert_desc k ks')), newn')" ..
    with c0 False Cons show ?thesis by (simp add: forest_insert_node_def)
  qed
qed

lemma set_insert_desc [simp]: "set (insert_desc k ks) = insert k (set ks)"
  by (induction ks) auto

lemma sorted_insert_desc:
  "sorted_wrt (>) ks \<Longrightarrow> k \<notin> set ks \<Longrightarrow> sorted_wrt (>) (insert_desc k ks)"
  by (induction ks) auto

lemma distinct_insert_desc [simp]:
  "distinct (insert_desc k ks) \<longleftrightarrow> k \<notin> set ks \<and> distinct ks"
  by (induction ks) auto

lemma sorted_fold_insert_desc:
  "sorted_wrt (>) acc \<Longrightarrow> distinct (ks @ acc) \<Longrightarrow>
     sorted_wrt (>) (fold insert_desc ks acc) \<and> set (fold insert_desc ks acc) = set ks \<union> set acc"
proof (induction ks arbitrary: acc)
  case Nil
  then show ?case by simp
next
  case (Cons k ks)
  have "sorted_wrt (>) (insert_desc k acc)"
    using Cons.prems by (intro sorted_insert_desc) auto
  moreover have "distinct (ks @ insert_desc k acc)" using Cons.prems by auto
  ultimately show ?case using Cons.IH[of "insert_desc k acc"] by auto
qed

lemma insert_hyperedge_chain:
  "1 \<le> k \<Longrightarrow> insert_hyperedge f (verts (chain_he w k)) (w k) =
     forest_insert_node f (Node (chain_he w k) [])"
proof -
  assume k: "1 \<le> k"
  then have ne: "verts (chain_he w k) \<noteq> []" by (simp add: chain_he_def)
  have "normalize_vertices (verts (chain_he w k)) = verts (chain_he w k)"
    by (rule normalize_canonical[OF chain_verts_canonical ne])
  with ne show ?thesis
    by (simp add: insert_hyperedge_def node_create_def chain_he_def)
qed

lemma batch_chain:
  assumes "sorted_wrt (>) acc" and "distinct (ks @ acc)" and "\<forall>k \<in> set ks. 1 \<le> k"
    and "\<forall>i \<in> set (ks @ acc). \<forall>j \<in> set (ks @ acc). i < j \<longrightarrow> w i < w j"
  shows "forest_insert_batch (chain_forest w acc) (map (\<lambda>k. (verts (chain_he w k), w k)) ks) =
         chain_forest w (fold insert_desc ks acc)"
  using assms
proof (induction ks arbitrary: acc)
  case Nil
  then show ?case by (simp add: forest_insert_batch_def)
next
  case (Cons k ks)
  have step: "insert_hyperedge (chain_forest w acc) (verts (chain_he w k)) (w k) =
      chain_forest w (insert_desc k acc)"
  proof -
    have "insert_hyperedge (chain_forest w acc) (verts (chain_he w k)) (w k) =
      forest_insert_node (chain_forest w acc) (Node (chain_he w k) [])"
      using Cons.prems(3) by (intro insert_hyperedge_chain) simp
    also have "\<dots> = chain_forest w (insert_desc k acc)"
      using Cons.prems by (intro forest_insert_chain) auto
    finally show ?thesis .
  qed
  have "forest_insert_batch (chain_forest w (insert_desc k acc))
          (map (\<lambda>k. (verts (chain_he w k), w k)) ks) =
        chain_forest w (fold insert_desc ks (insert_desc k acc))"
  proof (rule Cons.IH)
    show "sorted_wrt (>) (insert_desc k acc)"
      using Cons.prems by (intro sorted_insert_desc) auto
    show "distinct (ks @ insert_desc k acc)" using Cons.prems by auto
    show "\<forall>k\<in>set ks. 1 \<le> k" using Cons.prems by simp
    show "\<forall>i\<in>set (ks @ insert_desc k acc). \<forall>j\<in>set (ks @ insert_desc k acc). i < j \<longrightarrow> w i < w j"
      using Cons.prems(4) by auto
  qed
  with step show ?case by (simp add: forest_insert_batch_def)
qed

lemma sorted_desc_unique:
  assumes "sorted_wrt (>) (R :: nat list)" and "set R = {1, 2, 3, 4, 5}"
  shows "R = [5, 4, 3, 2, 1]"
proof -
  from assms(1) have "sorted_wrt (<) (rev R)" by (simp add: sorted_wrt_rev)
  then have "sorted (rev R)" "distinct (rev R)" by (simp_all add: strict_sorted_iff)
  moreover have "sorted [1, 2, 3, 4, 5 :: nat]" "distinct [1, 2, 3, 4, 5 :: nat]" by simp_all
  moreover have "set (rev R) = set [1, 2, 3, 4, 5 :: nat]" using assms(2) by auto
  ultimately have "rev R = [1, 2, 3, 4, 5]" by (rule sorted_distinct_set_unique)
  then have "rev (rev R) = rev [1, 2, 3, 4, 5]" by (rule arg_cong)
  then show ?thesis by simp
qed

text \<open>
  C4. The five hyperedges \<open>{1}\<close>, \<open>{1,2}\<close>, \<open>{1,2,3}\<close>, \<open>{1,2,3,4}\<close>, \<open>{1,2,3,4,5}\<close> with
  weights that increase strictly with the size, inserted in any order into the empty
  forest, give one root with five vertices over a single chain of depth five.
\<close>

theorem C4_chain_order_independent:
  fixes w1 w2 w3 w4 w5 :: real
  assumes "w1 < w2" and "w2 < w3" and "w3 < w4" and "w4 < w5"
    and "mset edges =
         mset [([1], w1), ([1, 2], w2), ([1, 2, 3], w3), ([1, 2, 3, 4], w4), ([1, 2, 3, 4, 5], w5)]"
  shows "let F = forest_insert_batch forest_create edges in
         F = [Node \<lparr>verts = [1, 2, 3, 4, 5], weight = w5\<rparr>
               [Node \<lparr>verts = [1, 2, 3, 4], weight = w4\<rparr>
                 [Node \<lparr>verts = [1, 2, 3], weight = w3\<rparr>
                   [Node \<lparr>verts = [1, 2], weight = w2\<rparr>
                     [Node \<lparr>verts = [1], weight = w1\<rparr> []]]]]] \<and>
         length F = 1 \<and> nverts (he (hd F)) = 5 \<and> forest_max_depth F = 5 \<and>
         count_total_nodes F = 5 \<and>
         list_all (\<lambda>nd. nchildren nd \<le> 1) (collect_all_nodes F)"
proof -
  define w :: "nat \<Rightarrow> real" where
    "w k = (if k = 1 then w1 else if k = 2 then w2 else if k = 3 then w3
            else if k = 4 then w4 else w5)" for k
  define g where "g = (\<lambda>k. (verts (chain_he w k), w k))"
  define L :: "(int list \<times> real) list" where "L = [([1], w1), ([1, 2], w2), ([1, 2, 3], w3), ([1, 2, 3, 4], w4), ([1, 2, 3, 4, 5], w5)]"
  define ks where "ks = map (\<lambda>e. length (fst e)) edges"
  have ch: "chain_he w 1 = \<lparr>verts = [1], weight = w1\<rparr>"
    "chain_he w 2 = \<lparr>verts = [1, 2], weight = w2\<rparr>"
    "chain_he w 3 = \<lparr>verts = [1, 2, 3], weight = w3\<rparr>"
    "chain_he w 4 = \<lparr>verts = [1, 2, 3, 4], weight = w4\<rparr>"
    "chain_he w 5 = \<lparr>verts = [1, 2, 3, 4, 5], weight = w5\<rparr>"
    by (simp_all add: chain_he_def w_def upt_rec)
  have wv: "w 1 = w1" "w 2 = w2" "w 3 = w3" "w 4 = w4" "w 5 = w5"
    by (simp_all add: w_def)
  have mono: "\<forall>i \<in> {1, 2, 3, 4, 5}. \<forall>j \<in> {1, 2, 3, 4, 5}. i < j \<longrightarrow> w i < w j"
    using assms(1-4) by (auto simp: w_def)
  from assms(5) have se: "set edges = set L" unfolding L_def by (rule mset_eq_setD)
  have gv: "g 1 = ([1], w1)" "g 2 = ([1, 2], w2)" "g 3 = ([1, 2, 3], w3)"
    "g 4 = ([1, 2, 3, 4], w4)" "g 5 = ([1, 2, 3, 4, 5], w5)"
    by (simp_all only: g_def ch wv hyperedge.simps)
  have gS: "g (Suc 0) = ([1], w1)" "g (Suc (Suc 0)) = ([1, 2], w2)"
    "g (Suc (Suc (Suc 0))) = ([1, 2, 3], w3)"
    "g (Suc (Suc (Suc (Suc 0)))) = ([1, 2, 3, 4], w4)"
    "g (Suc (Suc (Suc (Suc (Suc 0))))) = ([1, 2, 3, 4, 5], w5)"
    using gv by (simp_all add: eval_nat_numeral)
  have key_inv: "g (length (fst e)) = e" if "e \<in> set L" for e
    using that by (auto simp: L_def gS)
  have "map (\<lambda>e. g (length (fst e))) edges = edges"
    using se key_inv by (intro map_idI) simp
  then have edges: "map g ks = edges"
    by (simp add: ks_def comp_def)
  have "mset ks = image_mset (\<lambda>e. length (fst e)) (mset edges)" by (simp add: ks_def)
  also have "\<dots> = mset (map (\<lambda>e. length (fst e)) L)" using assms(5) by (simp add: L_def)
  also have "\<dots> = mset [1, 2, 3, 4, 5]" by (simp add: L_def eval_nat_numeral)
  finally have mk: "mset ks = mset [1, 2, 3, 4, 5]" .
  then have sk: "set ks = {1, 2, 3, 4, 5}" using mset_eq_setD by fastforce
  have "distinct [1, 2, 3, 4, 5 :: nat]" by simp
  with mk have dk: "distinct ks" by (metis mset_eq_imp_distinct_iff)
  have srt: "sorted_wrt (>) (fold insert_desc ks [])"
    and st: "set (fold insert_desc ks []) = {1, 2, 3, 4, 5}"
    using sorted_fold_insert_desc[of "[]" ks] dk sk by simp_all
  have R: "fold insert_desc ks [] = [5, 4, 3, 2, 1]"
    by (rule sorted_desc_unique[OF srt st])
  have "forest_insert_batch (chain_forest w []) (map (\<lambda>k. (verts (chain_he w k), w k)) ks) =
         chain_forest w (fold insert_desc ks [])"
    using dk sk mono by (intro batch_chain) auto
  then have "forest_insert_batch forest_create edges = chain_forest w [5, 4, 3, 2, 1]"
    unfolding edges[unfolded g_def] R by (simp only: forest_create_def chain_forest.simps)
  also have "\<dots> = [Node \<lparr>verts = [1, 2, 3, 4, 5], weight = w5\<rparr>
               [Node \<lparr>verts = [1, 2, 3, 4], weight = w4\<rparr>
                 [Node \<lparr>verts = [1, 2, 3], weight = w3\<rparr>
                   [Node \<lparr>verts = [1, 2], weight = w2\<rparr>
                     [Node \<lparr>verts = [1], weight = w1\<rparr> []]]]]]"
    by (simp only: chain_forest.simps ch)
  finally show ?thesis
    by (simp add: Let_def nverts_def nchildren_def forest_max_depth_def count_total_nodes_def
        collect_all_nodes_def)
qed

theorem C4_chain_order_independent_witness:
  "(1::real) < 2 \<and> (2::real) < 3 \<and> (3::real) < 4 \<and> (4::real) < 5 \<and>
   mset [([1, 2, 3], 3), ([1], 1), ([1, 2, 3, 4, 5], 5), ([1, 2], 2), ([1, 2, 3, 4], 4 :: real)] =
   mset [([1 :: int], 1), ([1, 2], 2), ([1, 2, 3], 3), ([1, 2, 3, 4], 4), ([1, 2, 3, 4, 5], 5)] \<and>
   forest_insert_batch forest_create
     [([1, 2, 3], 3), ([1], 1), ([1, 2, 3, 4, 5], 5), ([1, 2], 2), ([1, 2, 3, 4], 4)] =
   [Node \<lparr>verts = [1, 2, 3, 4, 5], weight = 5\<rparr>
     [Node \<lparr>verts = [1, 2, 3, 4], weight = 4\<rparr>
       [Node \<lparr>verts = [1, 2, 3], weight = 3\<rparr>
         [Node \<lparr>verts = [1, 2], weight = 2\<rparr>
           [Node \<lparr>verts = [1], weight = 1\<rparr> []]]]]]"
proof -
  have m: "mset [([1, 2, 3], 3), ([1], 1), ([1, 2, 3, 4, 5], 5), ([1, 2], 2), ([1, 2, 3, 4], 4 :: real)] =
   mset [([1 :: int], 1), ([1, 2], 2), ([1, 2, 3], 3), ([1, 2, 3, 4], 4), ([1, 2, 3, 4, 5], 5)]"
    by simp
  from C4_chain_order_independent[of 1 2 3 4 5, OF _ _ _ _ m] m show ?thesis
    by (simp add: Let_def)
qed

section \<open>Saving and loading\<close>

lemma fread_int_shrinks: "fread_int bs = Some (v, bs') \<Longrightarrow> length bs' < length bs"
  by (auto simp: fread_int_def split: if_splits)

lemma fread_double_shrinks: "fread_double bs = Some (v, bs') \<Longrightarrow> length bs' < length bs"
  by (auto simp: fread_double_def split: if_splits)

lemma fread_ints_shrinks: "fread_ints n bs = Some (vs, bs') \<Longrightarrow> length bs' \<le> length bs"
proof (induction n arbitrary: bs vs)
  case 0
  then show ?case by simp
next
  case (Suc n)
  then show ?case
    by (fastforce split: option.splits dest: fread_int_shrinks)
qed

text \<open>A node that is read takes at least its vertex count from the file.\<close>

lemma read_shrinks:
  "read_node_read_children_dom (Inl (m0, fp)) \<Longrightarrow>
     read_node m0 fp = Some (nd, fp') \<Longrightarrow> length fp' < length fp"
  "read_node_read_children_dom (Inr (m0, n, nd0, fp)) \<Longrightarrow>
     read_children m0 n nd0 fp = Some (nd, fp') \<Longrightarrow> length fp' \<le> length fp"
proof (induction m0 fp and m0 n nd0 fp arbitrary: nd fp' and nd fp'
    rule: read_node_read_children.pinduct)
  case (1 malloc0_null fp)
  from 1(3) obtain nv fp1 vs fp2 wt fp3 nc fp4 where
    a: "fread_int fp = Some (nv, fp1)" and b: "\<not> (nv < 0 \<or> (nv = 0 \<and> malloc0_null))"
    and c: "fread_ints (nat nv) fp1 = Some (vs, fp2)"
    and d: "fread_double fp2 = Some (wt, fp3)"
    and e: "fread_int fp3 = Some (nc, fp4)"
    and f: "read_children malloc0_null (nat nc) (node_create vs wt) fp4 = Some (nd, fp')"
    by (auto simp: read_node.psimps[OF 1(1)] split: option.splits if_splits)
  from 1(2)[OF a[unfolded] refl b c refl d refl e refl f]
  have "length fp' \<le> length fp4" .
  with fread_int_shrinks[OF a] fread_ints_shrinks[OF c] fread_double_shrinks[OF d]
    fread_int_shrinks[OF e]
  show ?case by simp
next
  case (2 malloc0_null nd fp)
  then show ?case by (simp add: read_children.psimps)
next
  case (3 malloc0_null n nd0 fp)
  from 3(4) obtain child fp1 where
    a: "read_node malloc0_null fp = Some (child, fp1)"
    and b: "read_children malloc0_null n (node_add_child nd0 child) fp1 = Some (nd, fp')"
    by (auto simp: read_children.psimps(2)[OF 3(1)] split: option.splits)
  from 3(2)[OF a] 3(3)[OF a refl b] show ?case by simp
qed

termination read_node
proof (relation "measure (\<lambda>x. case x of Inl (m0, fp) \<Rightarrow> 2 * length fp
                                  | Inr (m0, n, nd, fp) \<Rightarrow> 2 * length fp + 1)", goal_cases)
  case 1
  then show ?case by simp
next
  case (2 malloc0_null fp x2 x y xa xb ya x2a xc yb x2b xd yc)
  then have "fread_int fp = Some (x, y)" "fread_ints (nat x) y = Some (xb, ya)"
    "fread_double ya = Some (xc, yb)" "fread_int yb = Some (xd, yc)"
    by simp_all
  from fread_int_shrinks[OF this(1)] fread_ints_shrinks[OF this(2)]
    fread_double_shrinks[OF this(3)] fread_int_shrinks[OF this(4)]
  show ?case by simp
next
  case (3 malloc0_null n nd fp)
  then show ?case by simp
next
  case (4 malloc0_null n nd fp x2 x y)
  then show ?case using read_shrinks(1)[of malloc0_null fp] by auto
qed

declare read_node.simps [simp del]

lemma bytes_word_take:
  "(bytes_to_word (word_to_bytes n w) :: 'a::len word) = take_bit (8 * n) (w :: 'a word)"
proof (induction n arbitrary: w)
  case 0
  then show ?case by simp
next
  case (Suc n)
  show ?case
    apply (simp add: Suc)
    apply (rule bit_word_eqI)
    apply (auto simp: bit_simps)
    done
qed

lemma length_word_to_bytes [simp]: "length (word_to_bytes n w) = n"
  by (induction n arbitrary: w) auto

lemma fread_int_fwrite:
  assumes "- (2 ^ 31) \<le> v" and "v < 2 ^ 31"
  shows "fread_int (fwrite_int v @ rest) = Some (v, rest)"
proof -
  have "(bytes_to_word (word_to_bytes 4 (word_of_int v :: 32 word)) :: 32 word) = word_of_int v"
    by (simp add: bytes_word_take take_bit_word_eq_self)
  moreover have "sint (word_of_int v :: 32 word) = v"
    using assms by (simp add: sint_sbintrunc' signed_take_bit_int_eq_self)
  ultimately show ?thesis
    by (simp add: fread_int_def fwrite_int_def)
qed

lemma fread_double_fwrite: "fread_double (fwrite_double d @ rest) = Some (d, rest)"
proof -
  have "(bytes_to_word (word_to_bytes 8 d) :: 64 word) = d"
    by (simp add: bytes_word_take take_bit_word_eq_self)
  then show ?thesis
    by (simp add: fread_double_def fwrite_double_def)
qed

lemma fread_ints_fwrite:
  "list_all (\<lambda>v. - (2 ^ 31) \<le> v \<and> v < 2 ^ 31) vs \<Longrightarrow>
     fread_ints (length vs) (concat (map fwrite_int vs) @ rest) = Some (vs, rest)"
  by (induction vs) (auto simp: fread_int_fwrite)

lemma read_children_write:
  assumes "\<And>c rest. c \<in> set cs \<Longrightarrow> read_node m0 (write_node c @ rest) = Some (c, rest)"
  shows "read_children m0 (length cs) nd0 (concat (map write_node cs) @ rest) =
         Some (Node (he nd0) (children nd0 @ cs), rest)"
  using assms
proof (induction cs arbitrary: nd0)
  case Nil
  then show ?case by simp
next
  case (Cons c cs)
  have "read_node m0 (write_node c @ concat (map write_node cs) @ rest) =
        Some (c, concat (map write_node cs) @ rest)"
    using Cons.prems by simp
  moreover have "read_children m0 (length cs) (node_add_child nd0 c)
        (concat (map write_node cs) @ rest) =
      Some (Node (he (node_add_child nd0 c)) (children (node_add_child nd0 c) @ cs), rest)"
    using Cons.prems by (intro Cons.IH) simp
  ultimately show ?case by (simp add: node_add_child_def)
qed

lemma read_node_write:
  "node_fits m0 nd \<Longrightarrow> read_node m0 (write_node nd @ rest) = Some (nd, rest)"
proof (induction nd arbitrary: rest)
  case (Node h cs)
  from Node.prems have lv: "int (length (verts h)) < 2 ^ 31"
    and m: "verts h = [] \<longrightarrow> \<not> m0"
    and vs: "list_all (\<lambda>v. - (2 ^ 31) \<le> v \<and> v < 2 ^ 31) (verts h)"
    and lc: "int (length cs) < 2 ^ 31"
    and cs: "list_all (node_fits m0) cs"
    by simp_all
  have "read_children m0 (length cs) (node_create (verts h) (weight h))
        (concat (map write_node cs) @ rest) =
      Some (Node (he (node_create (verts h) (weight h)))
             (children (node_create (verts h) (weight h)) @ cs), rest)"
    using Node.IH cs by (intro read_children_write) (auto simp: list_all_iff)
  then have ch: "read_children m0 (length cs) (node_create (verts h) (weight h))
        (concat (map write_node cs) @ rest) = Some (Node h cs, rest)"
    by (simp add: node_create_def)
  have r1: "fread_int (fwrite_int (int (length (verts h))) @ X) = Some (int (length (verts h)), X)" for X
    using lv by (intro fread_int_fwrite) simp_all
  have r4: "fread_int (fwrite_int (int (length cs)) @ X) = Some (int (length cs), X)" for X
    using lc by (intro fread_int_fwrite) simp_all
  show ?case
    using m by (simp add: read_node.simps r1 r4 fread_ints_fwrite[OF vs] fread_double_fwrite ch)
qed

lemma read_roots_write:
  assumes "list_all (node_fits m0) rs"
  shows "read_roots m0 (length rs) f (concat (map write_node rs) @ rest) = Some (f @ rs)"
  using assms
proof (induction rs arbitrary: f)
  case Nil
  then show ?case by simp
next
  case (Cons r rs)
  then show ?case by (simp add: read_node_write)
qed

text \<open>
  C8. Saving a forest and loading the bytes written gives the forest back: the same
  roots in the same order and, below each, the same nodes with the same vertex
  sequences, weights and children, hence the same node count and the same pre-order.
  The forest is any forest that C memory can hold (32-bit counts and vertices).
\<close>

theorem C8_save_load_roundtrip:
  assumes "forest_fits malloc0_null f"
  shows "forest_load malloc0_null (forest_save f) = Some f"
proof -
  from assms have l: "int (length f) < 2 ^ 31" and n: "list_all (node_fits malloc0_null) f"
    by (simp_all add: forest_fits_def)
  have "fread_int (fwrite_int (int (length f)) @ concat (map write_node f)) =
        Some (int (length f), concat (map write_node f))"
    using l by (intro fread_int_fwrite) simp_all
  moreover have "read_roots malloc0_null (length f) [] (concat (map write_node f) @ []) = Some ([] @ f)"
    by (rule read_roots_write[OF n])
  ultimately show ?thesis
    by (simp add: forest_load_def forest_save_def forest_create_def)
qed

theorem C8_save_load_roundtrip_witness:
  "forest_fits True
     [Node \<lparr>verts = [1, 2, 3], weight = 0x3FF0000000000000\<rparr>
        [Node \<lparr>verts = [1, 2], weight = 0x3FE0000000000000\<rparr> [],
         Node \<lparr>verts = [-7], weight = 0xBFF8000000000000\<rparr> []],
      Node \<lparr>verts = [4, 5], weight = 0\<rparr> []] \<and>
   forest_load True (forest_save
     [Node \<lparr>verts = [1, 2, 3], weight = 0x3FF0000000000000\<rparr>
        [Node \<lparr>verts = [1, 2], weight = 0x3FE0000000000000\<rparr> [],
         Node \<lparr>verts = [-7], weight = 0xBFF8000000000000\<rparr> []],
      Node \<lparr>verts = [4, 5], weight = 0\<rparr> []]) =
   Some
     [Node \<lparr>verts = [1, 2, 3], weight = 0x3FF0000000000000\<rparr>
        [Node \<lparr>verts = [1, 2], weight = 0x3FE0000000000000\<rparr> [],
         Node \<lparr>verts = [-7], weight = 0xBFF8000000000000\<rparr> []],
      Node \<lparr>verts = [4, 5], weight = 0\<rparr> []]"
  using C8_save_load_roundtrip [of True
     "[Node \<lparr>verts = [1, 2, 3], weight = 0x3FF0000000000000\<rparr>
        [Node \<lparr>verts = [1, 2], weight = 0x3FE0000000000000\<rparr> [],
         Node \<lparr>verts = [-7], weight = 0xBFF8000000000000\<rparr> []],
      Node \<lparr>verts = [4, 5], weight = 0\<rparr> []]"]
  by (simp add: forest_fits_def)

section \<open>Bulk build\<close>

text \<open>
  C6. The claim asks that \<open>forest_build_bulk\<close> insert the edges by descending weight and
  so build the forest that insertion in the given order followed by \<open>forest_rebalance\<close>
  builds. The order that \<open>forest_build_bulk\<close> inserts in does not depend on the weights.
  Take the vertex arrays \<open>{1,2,3,4,5,7}\<close> and \<open>{1,2,3,4,5,6}\<close> with the weights 1 and 2,
  and the same arrays with the weights 2 and 1. Whatever the comparator finds in the two
  arrays, it finds the same for both inputs, so one of the two is inserted lighter edge
  first and becomes a chain, where insertion followed by rebalancing gives two roots.
\<close>

theorem C6_bulk_order_ignores_weights:
  "(forest_build_bulk reinterpret [([1, 2, 3, 4, 5, 7], 1), ([1, 2, 3, 4, 5, 6], 2)] =
      [Node \<lparr>verts = [1, 2, 3, 4, 5, 6], weight = 2\<rparr>
         [Node \<lparr>verts = [1, 2, 3, 4, 5, 7], weight = 1\<rparr> []]] \<or>
    forest_build_bulk reinterpret [([1, 2, 3, 4, 5, 7], 2), ([1, 2, 3, 4, 5, 6], 1)] =
      [Node \<lparr>verts = [1, 2, 3, 4, 5, 7], weight = 2\<rparr>
         [Node \<lparr>verts = [1, 2, 3, 4, 5, 6], weight = 1\<rparr> []]]) \<and>
   forest_rebalance
     (forest_insert_batch forest_create [([1, 2, 3, 4, 5, 7], 1), ([1, 2, 3, 4, 5, 6], 2)]) =
     [Node \<lparr>verts = [1, 2, 3, 4, 5, 6], weight = 2\<rparr> [],
      Node \<lparr>verts = [1, 2, 3, 4, 5, 7], weight = 1\<rparr> []] \<and>
   forest_rebalance
     (forest_insert_batch forest_create [([1, 2, 3, 4, 5, 7], 2), ([1, 2, 3, 4, 5, 6], 1)]) =
     [Node \<lparr>verts = [1, 2, 3, 4, 5, 7], weight = 2\<rparr> [],
      Node \<lparr>verts = [1, 2, 3, 4, 5, 6], weight = 1\<rparr> []]"
proof -
  have ab: "fold (\<lambda>(vs, w) f. insert_hyperedge f vs w)
              [([1, 2, 3, 4, 5, 7], 1), ([1, 2, 3, 4, 5, 6], 2)] forest_create =
      [Node \<lparr>verts = [1, 2, 3, 4, 5, 6], weight = 2\<rparr>
         [Node \<lparr>verts = [1, 2, 3, 4, 5, 7], weight = 1\<rparr> []]]"
    by code_simp
  have ba: "fold (\<lambda>(vs, w) f. insert_hyperedge f vs w)
              [([1, 2, 3, 4, 5, 6], 1), ([1, 2, 3, 4, 5, 7], 2)] forest_create =
      [Node \<lparr>verts = [1, 2, 3, 4, 5, 7], weight = 2\<rparr>
         [Node \<lparr>verts = [1, 2, 3, 4, 5, 6], weight = 1\<rparr> []]]"
    by code_simp
  have bulk: "forest_build_bulk reinterpret [([1, 2, 3, 4, 5, 7], 1), ([1, 2, 3, 4, 5, 6], 2)] =
      [Node \<lparr>verts = [1, 2, 3, 4, 5, 6], weight = 2\<rparr>
         [Node \<lparr>verts = [1, 2, 3, 4, 5, 7], weight = 1\<rparr> []]] \<or>
    forest_build_bulk reinterpret [([1, 2, 3, 4, 5, 7], 2), ([1, 2, 3, 4, 5, 6], 1)] =
      [Node \<lparr>verts = [1, 2, 3, 4, 5, 7], weight = 2\<rparr>
         [Node \<lparr>verts = [1, 2, 3, 4, 5, 6], weight = 1\<rparr> []]]"
  proof (cases "cmp_by_weight_desc (reinterpret [1, 2, 3, 4, 5, 7])
                  (reinterpret [1, 2, 3, 4, 5, 6]) \<le> 0")
    case True
    then have "forest_build_bulk reinterpret [([1, 2, 3, 4, 5, 7], 1), ([1, 2, 3, 4, 5, 6], 2)] =
        fold (\<lambda>(vs, w) f. insert_hyperedge f vs w)
              [([1, 2, 3, 4, 5, 7], 1), ([1, 2, 3, 4, 5, 6], 2)] forest_create"
      by (simp add: forest_build_bulk_def qsort_def)
    with ab show ?thesis by simp
  next
    case False
    then have "forest_build_bulk reinterpret [([1, 2, 3, 4, 5, 7], 2), ([1, 2, 3, 4, 5, 6], 1)] =
        fold (\<lambda>(vs, w) f. insert_hyperedge f vs w)
              [([1, 2, 3, 4, 5, 6], 1), ([1, 2, 3, 4, 5, 7], 2)] forest_create"
      by (simp add: forest_build_bulk_def qsort_def)
    with ba show ?thesis by simp
  qed
  have r1: "forest_rebalance
     (forest_insert_batch forest_create [([1, 2, 3, 4, 5, 7], 1), ([1, 2, 3, 4, 5, 6], 2)]) =
     [Node \<lparr>verts = [1, 2, 3, 4, 5, 6], weight = 2\<rparr> [],
      Node \<lparr>verts = [1, 2, 3, 4, 5, 7], weight = 1\<rparr> []]"
    by code_simp
  have r2: "forest_rebalance
     (forest_insert_batch forest_create [([1, 2, 3, 4, 5, 7], 2), ([1, 2, 3, 4, 5, 6], 1)]) =
     [Node \<lparr>verts = [1, 2, 3, 4, 5, 7], weight = 2\<rparr> [],
      Node \<lparr>verts = [1, 2, 3, 4, 5, 6], weight = 1\<rparr> []]"
    by code_simp
  from bulk r1 r2 show ?thesis by blast
qed

end
